theory Spec2Isabelle
  imports Main "HOL-Library.Word"
begin

unbundle bit_operations_syntax

section \<open>Machine integers of the C++ sources\<close>

type_synonym u8 = "8 word"
type_synonym u16 = "16 word"
type_synonym u32 = "32 word"
type_synonym u64 = "64 word"

section \<open>BusAddrStatus: online/offline hysteresis\<close>

text \<open>
  \<^verbatim>\<open>enum class DeviceOnlineState { INITIAL, ONLINE, OFFLINE }\<close> and the fields of
  \<^verbatim>\<open>class BusAddrStatus\<close> that \<^verbatim>\<open>handleResponding\<close> reads or writes.  The field
  \<^verbatim>\<open>count\<close> is declared \<^verbatim>\<open>int8_t\<close>: it is an 8-bit word read as two's complement.
\<close>

datatype DeviceOnlineState = INITIAL | ONLINE | OFFLINE

record BusAddrStatus =
  address :: u32
  count :: u8
  isChange :: bool
  isOnline :: bool
  wasOnceOnline :: bool
  isNewlyIdentified :: bool
  flagForDeletion :: bool
  onlineState :: DeviceOnlineState

text \<open>
  The value of an \<^verbatim>\<open>int8_t\<close> in a comparison with a \<^verbatim>\<open>uint32_t\<close>: the usual arithmetic
  conversions promote it to \<^verbatim>\<open>int\<close> and then convert it to \<^verbatim>\<open>unsigned int\<close>, that is,
  the sign-extended 32-bit pattern compared as an unsigned number.
\<close>

definition countAsU32 :: "u8 \<Rightarrow> u32" where
  "countAsU32 c = scast c"

text \<open>
  \<^verbatim>\<open>bool handleResponding(bool isResponding, bool &flagSpuriousRecord,
        uint32_t okMax, uint32_t failMax)\<close>.
  The reference parameter \<^verbatim>\<open>flagSpuriousRecord\<close> is passed in and returned; the result
  is (return value, flagSpuriousRecord, status after the call).  Both thresholds are
  \<^verbatim>\<open>uint32_t\<close>, so \<^verbatim>\<open>count < okMax\<close>, \<^verbatim>\<open>count >= okMax\<close>, \<^verbatim>\<open>count < -failMax\<close> and
  \<^verbatim>\<open>count <= -failMax\<close> are unsigned 32-bit comparisons, and \<^verbatim>\<open>-failMax\<close> is the
  unsigned negation \<open>2^32 - failMax\<close>.  \<^verbatim>\<open>count + 1\<close> and \<^verbatim>\<open>count - 1\<close> are computed in
  \<^verbatim>\<open>int\<close> and narrowed back to \<^verbatim>\<open>int8_t\<close>, which keeps the low 8 bits.
\<close>

definition handleResponding ::
  "bool \<Rightarrow> bool \<Rightarrow> u32 \<Rightarrow> u32 \<Rightarrow> BusAddrStatus \<Rightarrow> bool \<times> bool \<times> BusAddrStatus" where
  "handleResponding isResponding flagSpuriousRecord okMax failMax s =
    (if isResponding then
       (if \<not> isOnline s then
          (let c = (if countAsU32 (count s) < okMax then count s + 1 else count s) in
           if countAsU32 c \<ge> okMax then
             (True, flagSpuriousRecord,
              s\<lparr>isChange := \<not> isChange s, count := 0, isOnline := True,
                onlineState := ONLINE, wasOnceOnline := True, flagForDeletion := False\<rparr>)
           else (False, flagSpuriousRecord, s\<lparr>count := c\<rparr>))
        else (False, flagSpuriousRecord, s))
     else
       (if isOnline s \<or> \<not> wasOnceOnline s \<or> flagForDeletion s then
          (let c = (if countAsU32 (count s) < - failMax then count s else count s - 1) in
           if countAsU32 c \<le> - failMax then
             (let spurious = (\<not> wasOnceOnline s \<or> flagForDeletion s) in
              (True,
               (if spurious then True else flagSpuriousRecord),
               s\<lparr>count := 0,
                 isChange := (if spurious then isChange s else \<not> isChange s),
                 isOnline := False, onlineState := OFFLINE, flagForDeletion := True\<rparr>))
           else (False, flagSpuriousRecord, s\<lparr>count := c\<rparr>))
        else (False, flagSpuriousRecord, s)))"

text \<open>The default-constructed status: \<^verbatim>\<open>count = 0\<close>, every flag false, state INITIAL.\<close>

definition initialStatus :: BusAddrStatus where
  "initialStatus = \<lparr>address = 0, count = 0, isChange = False, isOnline = False,
     wasOnceOnline = False, isNewlyIdentified = False, flagForDeletion = False,
     onlineState = INITIAL\<rparr>"

text \<open>
  \<open>n\<close> consecutive calls with the same arguments: the list of return values (each with the
  value of \<^verbatim>\<open>flagSpuriousRecord\<close> after that call, the flag being passed in as false every
  time, as callers do) and the final status.
\<close>

fun observeN :: "nat \<Rightarrow> bool \<Rightarrow> u32 \<Rightarrow> u32 \<Rightarrow> BusAddrStatus \<Rightarrow> (bool \<times> bool) list \<times> BusAddrStatus" where
  "observeN 0 isResponding okMax failMax s = ([], s)"
| "observeN (Suc n) isResponding okMax failMax s =
     (case handleResponding isResponding False okMax failMax s of
        (changed, spurious, s') \<Rightarrow>
          (case observeN n isResponding okMax failMax s' of
             (rs, s'') \<Rightarrow> ((changed, spurious) # rs, s'')))"


section \<open>OfflineDataStore: the RAM ring of poll results\<close>

text \<open>
  \<^verbatim>\<open>struct OfflineDataMeta { uint32_t seq; uint32_t ts; uint64_t tsBaseMs; }\<close> and
  \<^verbatim>\<open>struct OfflineDataStats\<close>, with their default member initialisers.
\<close>

record OfflineDataMeta =
  seq :: u32
  ts :: u32
  tsBaseMs :: u64

record OfflineDataStats =
  depth :: u32
  drops :: u32
  maxEntries :: u32
  payloadSize :: u32
  metaSize :: u32
  tsWrapCount :: u32
  firstSeq :: u32
  timestampBytes :: u32
  timestampResolutionUs :: u32
  oldestCaptureMs :: u64

definition defaultStats :: OfflineDataStats where
  "defaultStats = \<lparr>depth = 0, drops = 0, maxEntries = 0, payloadSize = 0, metaSize = 0,
     tsWrapCount = 0, firstSeq = 0, timestampBytes = 0, timestampResolutionUs = 0,
     oldestCaptureMs = 0\<rparr>"

text \<open>
  The private members of \<^verbatim>\<open>class OfflineDataStore\<close>; the member \<^verbatim>\<open>_x\<close> is the field
  \<open>r_x\<close>.  The mutex is not modelled: every operation takes it with
  \<^verbatim>\<open>portMAX_DELAY\<close> and runs to completion, so operations are atomic steps on this state.
\<close>

record OfflineDataStore =
  r_ringBuffer :: "u8 list"
  r_adjTimestampMs :: "u32 list"
  r_headIdx :: u32
  r_count :: u32
  r_maxEntries :: u32
  r_payloadSize :: u32
  r_timestampBytes :: u32
  r_timestampResolutionUs :: u32
  r_timestampWrapMs :: u64
  r_timestampBaseMs :: u64
  r_lastTimestampVal :: u16
  r_lastTimestampValid :: bool
  r_drops :: u32
  r_tsWrapCount :: u32
  r_nextSeq :: u32

definition META_STORAGE_BYTES :: u32 where
  "META_STORAGE_BYTES = 4"

text \<open>The default-constructed store: empty vectors, every counter zero.\<close>

definition newStore :: OfflineDataStore where
  "newStore = \<lparr>r_ringBuffer = [], r_adjTimestampMs = [], r_headIdx = 0, r_count = 0,
     r_maxEntries = 0, r_payloadSize = 0, r_timestampBytes = 0, r_timestampResolutionUs = 0,
     r_timestampWrapMs = 0, r_timestampBaseMs = 0, r_lastTimestampVal = 0,
     r_lastTimestampValid = False, r_drops = 0, r_tsWrapCount = 0, r_nextSeq = 0\<rparr>"

text \<open>
  \<^verbatim>\<open>memcpy(dst + off, src, n)\<close> into a vector and out of one.  A copy that does not fit the
  vector is undefined behaviour in C++; it can only happen when the 32-bit product
  \<^verbatim>\<open>_maxEntries * _payloadSize\<close> overflowed in \<^verbatim>\<open>init\<close>.  The model leaves the vector
  unchanged there, and every statement about stored bytes assumes the product fits.
\<close>

definition memWrite :: "'a list \<Rightarrow> nat \<Rightarrow> 'a list \<Rightarrow> 'a list" where
  "memWrite buf off src =
     (if off + length src \<le> length buf
      then take off buf @ src @ drop (off + length src) buf else buf)"

definition memRead :: "'a list \<Rightarrow> nat \<Rightarrow> nat \<Rightarrow> 'a list" where
  "memRead buf off n = take n (drop off buf)"

text \<open>
  Modelled from the spec: \<^verbatim>\<open>Raft::getBEUInt16AndInc\<close> and \<^verbatim>\<open>Raft::getBEUInt32AndInc\<close>
  (RaftUtils, not among the sources) read the device timestamp from the first bytes of the
  payload, big-endian.  Both are called with an end pointer; a payload too short for
  the field reads as 0.
\<close>

definition getBEUInt16 :: "u8 list \<Rightarrow> u16" where
  "getBEUInt16 d =
     (if 2 \<le> length d then push_bit 8 (ucast (d ! 0)) OR ucast (d ! 1) else 0)"

definition getBEUInt32 :: "u8 list \<Rightarrow> u32" where
  "getBEUInt32 d =
     (if 4 \<le> length d
      then push_bit 24 (ucast (d ! 0)) OR push_bit 16 (ucast (d ! 1))
           OR push_bit 8 (ucast (d ! 2)) OR ucast (d ! 3)
      else 0)"

text \<open>
  The timestamp extraction shared by \<^verbatim>\<open>put\<close> and \<^verbatim>\<open>get\<close>: one byte, two bytes, or four
  bytes downcast to \<^verbatim>\<open>uint16_t\<close>; any other width leaves the value 0.  The payload is
  never empty where this is called (\<^verbatim>\<open>_payloadSize > 0\<close>).
\<close>

definition extractTs :: "u32 \<Rightarrow> u8 list \<Rightarrow> u16" where
  "extractTs tsBytes d =
     (if tsBytes = 1 then ucast (d ! 0)
      else if tsBytes = 2 then getBEUInt16 d
      else if tsBytes = 4 then ucast (getBEUInt32 d)
      else 0)"

text \<open>
  \<^verbatim>\<open>void init(maxEntries, payloadSize, timestampBytes, timestampResolutionUs)\<close>.
  The wrap span is \<^verbatim>\<open>(1ULL << (_timestampBytes * 8)) * (_timestampResolutionUs / 1000)\<close>
  in 64 bits (a shift by 64 or more, undefined in C++, gives 0 here); the payload vector
  has \<^verbatim>\<open>_maxEntries * _payloadSize\<close> bytes, a 32-bit product.
\<close>

definition init :: "u32 \<Rightarrow> u32 \<Rightarrow> u32 \<Rightarrow> u32 \<Rightarrow> OfflineDataStore \<Rightarrow> OfflineDataStore" where
  "init maxEntries' payloadSize' timestampBytes' timestampResolutionUs' s =
     s\<lparr>r_maxEntries := maxEntries',
       r_payloadSize := payloadSize',
       r_timestampBytes := timestampBytes',
       r_timestampResolutionUs := timestampResolutionUs',
       r_timestampWrapMs :=
         push_bit (unat (timestampBytes' * 8)) (1 :: u64) * ucast (timestampResolutionUs' div 1000),
       r_ringBuffer := replicate (unat (maxEntries' * payloadSize')) 0,
       r_adjTimestampMs := replicate (unat maxEntries') 0,
       r_headIdx := 0, r_count := 0, r_drops := 0, r_tsWrapCount := 0,
       r_lastTimestampValid := False, r_timestampBaseMs := 0, r_lastTimestampVal := 0,
       r_nextSeq := 0\<rparr>"

definition clear :: "OfflineDataStore \<Rightarrow> OfflineDataStore" where
  "clear s =
     s\<lparr>r_headIdx := 0, r_count := 0, r_drops := 0, r_tsWrapCount := 0,
       r_lastTimestampValid := False, r_timestampBaseMs := 0, r_lastTimestampVal := 0,
       r_nextSeq := 0\<rparr>"

definition isConfigured :: "OfflineDataStore \<Rightarrow> bool" where
  "isConfigured s \<longleftrightarrow> r_maxEntries s > 0 \<and> r_payloadSize s > 0"

text \<open>
  \<^verbatim>\<open>bool put(uint64_t timeNowUs, uint32_t seq, const std::vector<uint8_t>& data)\<close>:
  the return value and the store after the call.
\<close>

definition put :: "u64 \<Rightarrow> u32 \<Rightarrow> u8 list \<Rightarrow> OfflineDataStore \<Rightarrow> bool \<times> OfflineDataStore" where
  "put timeNowUs seqNo d s =
     (if \<not> isConfigured s \<or> length d \<noteq> unat (r_payloadSize s) then (False, s)
      else
        (let tsVal = extractTs (r_timestampBytes s) d;
             timeNowMs = timeNowUs div 1000;
             tsResolutionMs = r_timestampResolutionUs s div 1000;
             tsMs = (ucast tsVal :: u64) * ucast tsResolutionMs;
             base0 = (if \<not> r_lastTimestampValid s
                      then (if tsResolutionMs > 0 \<and> timeNowMs > tsMs then timeNowMs - tsMs else 0)
                      else r_timestampBaseMs s);
             wrapped = (r_lastTimestampValid s \<and> tsVal < r_lastTimestampVal s);
             base1 = (if wrapped then base0 + r_timestampWrapMs s else base0);
             writeIdx = r_headIdx s * r_payloadSize s;
             adjustedTsMs = base1 + tsMs
         in (True,
             s\<lparr>r_timestampBaseMs := base1,
               r_tsWrapCount := (if wrapped then r_tsWrapCount s + 1 else r_tsWrapCount s),
               r_lastTimestampVal := tsVal,
               r_lastTimestampValid := True,
               r_ringBuffer := memWrite (r_ringBuffer s) (unat writeIdx) d,
               r_adjTimestampMs := (r_adjTimestampMs s)[unat (r_headIdx s) := ucast adjustedTsMs],
               r_count := (if r_count s < r_maxEntries s then r_count s + 1 else r_count s),
               r_drops := (if r_count s < r_maxEntries s then r_drops s else r_drops s + 1),
               r_headIdx := (r_headIdx s + 1) mod r_maxEntries s,
               r_nextSeq := seqNo + 1\<rparr>)))"

text \<open>
  The body of the \<^verbatim>\<open>for\<close> loop of \<^verbatim>\<open>get\<close>, for the entry at ring index \<open>tailIdx\<close>:
  the payload copied out and its metadata.
\<close>

definition getEntry :: "OfflineDataStore \<Rightarrow> u32 \<Rightarrow> u32 \<Rightarrow> u8 list \<times> OfflineDataMeta" where
  "getEntry s tailIdx seqNo =
     (let payload = memRead (r_ringBuffer s) (unat (tailIdx * r_payloadSize s))
                      (unat (r_payloadSize s));
          tsResolutionMs = r_timestampResolutionUs s div 1000;
          tsRaw = (ucast (extractTs (r_timestampBytes s) payload) :: u32);
          adjustedTsMs = (ucast (r_adjTimestampMs s ! unat tailIdx) :: u64);
          tsComponentMs = (if tsResolutionMs \<noteq> 0
                           then (ucast tsRaw :: u64) * ucast tsResolutionMs else 0)
      in (payload,
          \<lparr>seq = seqNo, ts = tsRaw,
           tsBaseMs = (if adjustedTsMs \<ge> tsComponentMs
                       then adjustedTsMs - tsComponentMs else 0)\<rparr>))"

text \<open>
  The loop \<^verbatim>\<open>for (i = 0; i < numResponses; i++)\<close>: the first argument is the number of
  iterations left, \<open>i\<close> the loop counter, \<open>tailIdx\<close> the running ring index.
\<close>

fun getLoop :: "OfflineDataStore \<Rightarrow> nat \<Rightarrow> u32 \<Rightarrow> u32 \<Rightarrow> u32 \<Rightarrow> (u8 list \<times> OfflineDataMeta) list" where
  "getLoop s 0 i tailIdx seqStart = []"
| "getLoop s (Suc n) i tailIdx seqStart =
     getEntry s tailIdx (seqStart + i)
       # getLoop s n (i + 1) ((tailIdx + 1) mod r_maxEntries s) seqStart"

text \<open>
  \<^verbatim>\<open>uint32_t get(data, responseSize, maxResponsesToReturn, metas, consumeEntries,
  startIdx, maxBytes)\<close>.  The output parameters \<^verbatim>\<open>data\<close> and \<^verbatim>\<open>metas\<close> are cleared on
  entry; \<^verbatim>\<open>responseSize\<close> is written only on some paths, so its previous value is an
  argument.  \<^verbatim>\<open>data\<close> is the concatenation of the payloads copied out.
\<close>

text \<open>The start index after \<^verbatim>\<open>if ((consumeEntries) && (startIdx > 0)) startIdx = 0\<close>.\<close>

definition getStartIdx :: "bool \<Rightarrow> u32 \<Rightarrow> u32" where
  "getStartIdx consumeEntries startIdx0 = (if consumeEntries \<and> startIdx0 > 0 then 0 else startIdx0)"

record GetResult =
  g_numResponses :: u32
  g_data :: "u8 list"
  g_responseSize :: u32
  g_metas :: "OfflineDataMeta list"
  g_store :: OfflineDataStore

definition getNothing :: "u32 \<Rightarrow> OfflineDataStore \<Rightarrow> GetResult" where
  "getNothing responseSize s =
     \<lparr>g_numResponses = 0, g_data = [], g_responseSize = responseSize, g_metas = [],
      g_store = s\<rparr>"

definition get :: "u32 \<Rightarrow> u32 \<Rightarrow> bool \<Rightarrow> u32 \<Rightarrow> u32 \<Rightarrow> OfflineDataStore \<Rightarrow> GetResult" where
  "get responseSize maxResponsesToReturn consumeEntries startIdx0 maxBytes s =
     (if \<not> isConfigured s then getNothing responseSize s
      else
        (let startIdx = getStartIdx consumeEntries startIdx0 in
         if r_count s = 0 \<or> startIdx \<ge> r_count s then getNothing responseSize s
         else
           (let available = r_count s - startIdx;
                numResponses0 =
                  (if maxResponsesToReturn = 0 \<or> available < maxResponsesToReturn
                   then available else maxResponsesToReturn);
                bytesPerEntry = r_payloadSize s + META_STORAGE_BYTES;
                maxFromBytes = (if bytesPerEntry \<noteq> 0 then maxBytes div bytesPerEntry else 0)
            in
            if maxBytes > 0 \<and> maxFromBytes = 0 then getNothing responseSize s
            else
              (let numResponses =
                     (if maxBytes > 0 \<and> maxFromBytes < numResponses0
                      then maxFromBytes else numResponses0)
               in
               if numResponses = 0 then getNothing (r_payloadSize s) s
               else
                 (let tailIdx = (r_headIdx s + r_maxEntries s - r_count s + startIdx)
                                  mod r_maxEntries s;
                      seqStart = (if r_nextSeq s > r_count s
                                  then r_nextSeq s - r_count s + startIdx else startIdx);
                      entries = getLoop s (unat numResponses) 0 tailIdx seqStart
                  in \<lparr>g_numResponses = numResponses,
                      g_data = concat (map fst entries),
                      g_responseSize = r_payloadSize s,
                      g_metas = map snd entries,
                      g_store = (if consumeEntries
                                 then s\<lparr>r_count := r_count s - numResponses\<rparr> else s)\<rparr>)))))"

text \<open>
  The number of responses \<^verbatim>\<open>get\<close> returns, as a function of the caps and the start index
  (0 on each early return).
\<close>

definition getNumResponses :: "u32 \<Rightarrow> u32 \<Rightarrow> u32 \<Rightarrow> OfflineDataStore \<Rightarrow> u32" where
  "getNumResponses maxResponsesToReturn maxBytes startIdx s =
     (if \<not> isConfigured s \<or> r_count s = 0 \<or> startIdx \<ge> r_count s then 0
      else
        (let available = r_count s - startIdx;
             numResponses0 =
               (if maxResponsesToReturn = 0 \<or> available < maxResponsesToReturn
                then available else maxResponsesToReturn);
             bytesPerEntry = r_payloadSize s + META_STORAGE_BYTES;
             maxFromBytes = (if bytesPerEntry \<noteq> 0 then maxBytes div bytesPerEntry else 0)
         in if maxBytes > 0 \<and> maxFromBytes = 0 then 0
            else if maxBytes > 0 \<and> maxFromBytes < numResponses0
                 then maxFromBytes else numResponses0))"

definition consume :: "u32 \<Rightarrow> OfflineDataStore \<Rightarrow> bool \<times> OfflineDataStore" where
  "consume numResponses s =
     (if \<not> isConfigured s then (False, s)
      else (True, s\<lparr>r_count := r_count s
                      - (if numResponses > r_count s then r_count s else numResponses)\<rparr>))"

definition getStats :: "OfflineDataStore \<Rightarrow> OfflineDataStats" where
  "getStats s =
     (if \<not> isConfigured s then defaultStats
      else
        \<lparr>depth = r_count s, drops = r_drops s, maxEntries = r_maxEntries s,
         payloadSize = r_payloadSize s, metaSize = META_STORAGE_BYTES,
         tsWrapCount = r_tsWrapCount s,
         firstSeq = (if r_nextSeq s > r_count s then r_nextSeq s - r_count s else 0),
         timestampBytes = r_timestampBytes s,
         timestampResolutionUs = r_timestampResolutionUs s,
         oldestCaptureMs =
           (if r_count s > 0
            then ucast (r_adjTimestampMs s
                         ! unat ((r_headIdx s + r_maxEntries s - r_count s) mod r_maxEntries s))
            else 0)\<rparr>)"

definition capacityBytes :: "OfflineDataStore \<Rightarrow> u32" where
  "capacityBytes s = r_maxEntries s * (r_payloadSize s + META_STORAGE_BYTES)"


definition getPayloadSize :: "OfflineDataStore \<Rightarrow> u32" where
  "getPayloadSize s = r_payloadSize s"

text \<open>
  The operations a client can apply to a store, and the states reachable from the
  default-constructed store by any sequence of them, with any arguments.
\<close>

datatype RingOp =
    OpInit u32 u32 u32 u32
  | OpPut u64 u32 "u8 list"
  | OpGet u32 u32 bool u32 u32
  | OpConsume u32
  | OpClear

fun applyOp :: "RingOp \<Rightarrow> OfflineDataStore \<Rightarrow> OfflineDataStore" where
  "applyOp (OpInit m p tb res) s = init m p tb res s"
| "applyOp (OpPut t sq d) s = snd (put t sq d s)"
| "applyOp (OpGet rs mx c st mb) s = g_store (get rs mx c st mb s)"
| "applyOp (OpConsume n) s = snd (consume n s)"
| "applyOp OpClear s = clear s"

definition runOps :: "RingOp list \<Rightarrow> OfflineDataStore \<Rightarrow> OfflineDataStore" where
  "runOps ops s = foldl (\<lambda>st op. applyOp op st) s ops"

text \<open>
  A run in which no accepted \<^verbatim>\<open>put\<close> is handed a sequence number below the store's
  \<^verbatim>\<open>_nextSeq\<close>, nor the last 32-bit value (whose successor wraps to 0).
\<close>

fun seqsAscend :: "RingOp list \<Rightarrow> OfflineDataStore \<Rightarrow> bool" where
  "seqsAscend [] s = True"
| "seqsAscend (OpPut t sq d # ops) s =
     ((fst (put t sq d s) \<longrightarrow> r_nextSeq s \<le> sq \<and> sq \<noteq> - 1)
      \<and> seqsAscend ops (applyOp (OpPut t sq d) s))"
| "seqsAscend (op # ops) s = seqsAscend ops (applyOp op s)"

text \<open>
  Scenario S2 of the specification: a ring of three entries (two-byte payloads carrying a
  two-byte timestamp, 1 ms resolution) and five puts with sequence numbers 10 to 14.
\<close>

definition s2ops :: "RingOp list" where
  "s2ops = [OpInit 3 2 2 1000, OpPut 1000000 10 [0, 10], OpPut 1001000 11 [0, 11],
            OpPut 1002000 12 [0, 12], OpPut 1003000 13 [0, 13], OpPut 1004000 14 [0, 14]]"

text \<open>
  Scenario S1 of the specification: two-byte timestamps at 1 ms resolution, raw values
  60000, 65535, 0, 500 put at 1000000, 1005000, 1010000, 1010500 microseconds.
\<close>

definition s1ops :: "RingOp list" where
  "s1ops = [OpInit 8 2 2 1000, OpPut 1000000 0 [0xEA, 0x60], OpPut 1005000 1 [0xFF, 0xFF],
            OpPut 1010000 2 [0, 0], OpPut 1010500 3 [0x01, 0xF4]]"

text \<open>
  Two runs in which the adjusted timestamp outgrows 32 bits: two-byte timestamps 0 and 20
  put when the clock reads \<open>2^32 - 10\<close> ms and 20 ms later; and four-byte timestamps
  60000 and 65541 (whose low 16 bits are 5).
\<close>

definition truncOps :: "RingOp list" where
  "truncOps = [OpInit 8 2 2 1000, OpPut 4294967286000 0 [0, 0], OpPut 4294967306000 1 [0, 20]]"

definition wideOps :: "RingOp list" where
  "wideOps = [OpInit 8 4 4 1000, OpPut 1000000 0 [0, 0, 0xEA, 0x60],
              OpPut 1005000 1 [0, 1, 0, 5]]"


section \<open>DeviceStatus: storing poll results\<close>

text \<open>
  Modelled from the spec: \<^verbatim>\<open>DevicePollingInfo\<close> (DevicePollingInfo.h is not among the
  sources).  The specification (4.4) gives the per-device polling state
  \<open>{pollIntervalUs, partialPollPauseAfterSendMs, partialPollNextReqIdx, lastPollTimeUs,
  pollReqs, partialPollResult}\<close>; the accumulator \<open>partialPollResult\<close> is the member the
  source calls \<^verbatim>\<open>_pollDataResult\<close>.
\<close>

record DevicePollingInfo =
  pollIntervalUs :: u32
  partialPollPauseAfterSendMs :: u32
  partialPollNextReqIdx :: u32
  lastPollTimeUs :: u64
  pollReqs :: "u8 list list"
  pollDataResult :: "u8 list"

text \<open>
  Modelled from the spec: \<^verbatim>\<open>recordPartialPollResult\<close>.  ``If \<open>nextReqIdx > 0\<close>: append
  \<open>pollResult\<close> to \<open>partialPollResult\<close>, remember \<open>pauseAfterSendMs\<close>, set
  \<open>partialPollNextReqIdx = nextReqIdx\<close>.''
\<close>

definition recordPartialPollResult ::
  "u32 \<Rightarrow> u64 \<Rightarrow> u8 list \<Rightarrow> u32 \<Rightarrow> DevicePollingInfo \<Rightarrow> DevicePollingInfo" where
  "recordPartialPollResult nextReqIdx timeNowUs pollResult pauseAfterSendMs info =
     info\<lparr>pollDataResult := pollDataResult info @ pollResult,
          partialPollPauseAfterSendMs := pauseAfterSendMs,
          partialPollNextReqIdx := nextReqIdx\<rparr>"

text \<open>
  Modelled from the spec: \<^verbatim>\<open>getPartialPollResultsAndClear\<close>.  ``If a partial accumulator
  exists, concatenate then clear'': the call reports whether fragments were accumulated,
  hands them out and empties the accumulator.
\<close>

definition getPartialPollResultsAndClear ::
  "DevicePollingInfo \<Rightarrow> bool \<times> u8 list \<times> DevicePollingInfo" where
  "getPartialPollResultsAndClear info =
     (if pollDataResult info = [] then (False, [], info)
      else (True, pollDataResult info, info\<lparr>pollDataResult := []\<rparr>))"

text \<open>
  \<^verbatim>\<open>class DeviceStatus\<close>.  \<^verbatim>\<open>PollDataAggregator\<close> is not among the sources: the aggregator
  is a state of any type \<open>'agg\<close>, and its \<^verbatim>\<open>put(timeNowUs, data)\<close> is a parameter of
  \<^verbatim>\<open>storePollResults\<close>.  The private members \<^verbatim>\<open>_offlineSeq\<close>, \<^verbatim>\<open>_offlineBufferPaused\<close> and
  \<^verbatim>\<open>_offlineDrainPaused\<close> are the fields \<open>d_\<dots>\<close>.  A \<^verbatim>\<open>DeviceStatus\<close> has no persistent
  (NVS) store among its members.
\<close>

record 'agg DeviceStatus =
  deviceTypeIndex :: u16
  deviceIdentPolling :: DevicePollingInfo
  dataAggregator :: 'agg
  offlineData :: OfflineDataStore
  d_offlineSeq :: u32
  d_offlineBufferPaused :: bool
  d_offlineDrainPaused :: bool

text \<open>
  \<^verbatim>\<open>bool storePollResults(nextReqIdx, timeNowUs, pollResult, pPollInfo, pauseAfterSendMs)\<close>
  (\<^verbatim>\<open>pPollInfo\<close> is not used).  The \<^verbatim>\<open>else\<close> block of the source holds both the case with
  accumulated fragments and the case without; the final \<^verbatim>\<open>return true\<close> belongs to the
  partial poll.
\<close>

definition storePollResults ::
  "(u64 \<Rightarrow> u8 list \<Rightarrow> 'agg \<Rightarrow> bool \<times> 'agg) \<Rightarrow> u32 \<Rightarrow> u64 \<Rightarrow> u8 list \<Rightarrow> u32
     \<Rightarrow> 'agg DeviceStatus \<Rightarrow> bool \<times> 'agg DeviceStatus" where
  "storePollResults aggPut nextReqIdx timeNowUs pollResult pauseAfterSendMs ds =
     (if nextReqIdx \<noteq> 0 then
        (True,
         ds\<lparr>deviceIdentPolling :=
              recordPartialPollResult nextReqIdx timeNowUs pollResult pauseAfterSendMs
                (deviceIdentPolling ds)\<rparr>)
      else
        (case getPartialPollResultsAndClear (deviceIdentPolling ds) of
           (hasPartial, partialPollResult0, info') \<Rightarrow>
             if hasPartial then
               (let partialPollResult = partialPollResult0 @ pollResult;
                    aggRes = aggPut timeNowUs partialPollResult (dataAggregator ds);
                    seqNo = d_offlineSeq ds
                in (fst aggRes,
                    ds\<lparr>deviceIdentPolling := info',
                       dataAggregator := snd aggRes,
                       d_offlineSeq := seqNo + 1,
                       offlineData :=
                         (if isConfigured (offlineData ds) \<and> \<not> d_offlineBufferPaused ds
                          then snd (put timeNowUs seqNo partialPollResult (offlineData ds))
                          else offlineData ds)\<rparr>))
             else
               (let aggRes = aggPut timeNowUs pollResult (dataAggregator ds);
                    seqNo = d_offlineSeq ds
                in (fst aggRes,
                    ds\<lparr>deviceIdentPolling := info',
                       dataAggregator := snd aggRes,
                       d_offlineSeq := seqNo + 1,
                       offlineData :=
                         (if isConfigured (offlineData ds) \<and> \<not> d_offlineBufferPaused ds
                          then snd (put timeNowUs seqNo pollResult (offlineData ds))
                          else offlineData ds)\<rparr>))))"

text \<open>
  \<^verbatim>\<open>configureOfflineBuffer\<close>, \<^verbatim>\<open>setOfflineBufferPaused\<close> and the default-constructed
  status, over an aggregator that starts as \<open>agg0\<close>.
\<close>

definition newPollingInfo :: DevicePollingInfo where
  "newPollingInfo = \<lparr>pollIntervalUs = 0, partialPollPauseAfterSendMs = 0,
     partialPollNextReqIdx = 0, lastPollTimeUs = 0, pollReqs = [], pollDataResult = []\<rparr>"

definition newDeviceStatus :: "'agg \<Rightarrow> 'agg DeviceStatus" where
  "newDeviceStatus agg0 = \<lparr>deviceTypeIndex = - 1, deviceIdentPolling = newPollingInfo,
     dataAggregator = agg0, offlineData = newStore, d_offlineSeq = 0,
     d_offlineBufferPaused = False, d_offlineDrainPaused = False\<rparr>"

definition configureOfflineBuffer ::
  "u32 \<Rightarrow> u32 \<Rightarrow> u32 \<Rightarrow> u32 \<Rightarrow> 'agg DeviceStatus \<Rightarrow> 'agg DeviceStatus" where
  "configureOfflineBuffer maxEntries' payloadSize' timestampBytes' timestampResolutionUs' ds =
     ds\<lparr>offlineData :=
          init maxEntries' payloadSize' timestampBytes' timestampResolutionUs' (offlineData ds)\<rparr>"

definition setOfflineBufferPaused :: "bool \<Rightarrow> 'agg DeviceStatus \<Rightarrow> 'agg DeviceStatus" where
  "setOfflineBufferPaused paused ds = ds\<lparr>d_offlineBufferPaused := paused\<rparr>"

text \<open>
  An aggregator for concrete runs: the list of the samples it was handed, every
  \<^verbatim>\<open>put\<close> succeeding.
\<close>

definition listAggPut :: "u64 \<Rightarrow> u8 list \<Rightarrow> (u64 \<times> u8 list) list \<Rightarrow> bool \<times> (u64 \<times> u8 list) list" where
  "listAggPut timeNowUs d agg = (True, agg @ [(timeNowUs, d)])"

text \<open>
  Scenario S6 of the specification on a ring of three-byte payloads: a fragment
  \<open>[0xAA, 0xBB]\<close> (next request index 1), then the final result \<open>[0xCC]\<close>; once with the
  buffer active and once with the buffer paused.
\<close>

definition s6Start :: "bool \<Rightarrow> (u64 \<times> u8 list) list DeviceStatus" where
  "s6Start paused = setOfflineBufferPaused paused (configureOfflineBuffer 4 3 1 1000 (newDeviceStatus []))"

definition s6Run :: "bool \<Rightarrow> (u64 \<times> u8 list) list DeviceStatus" where
  "s6Run paused =
     snd (storePollResults listAggPut 0 5000 [0xCC] 0
       (snd (storePollResults listAggPut 1 0 [0xAA, 0xBB] 5 (s6Start paused))))"


section \<open>OfflineDataStoreNVS: the persisted ring\<close>

text \<open>
  \<^verbatim>\<open>struct OfflineNvsMeta\<close> (the fields \<open>m_\<dots>\<close>) and the constants of
  OfflineDataStoreNVS.cpp.
\<close>

record OfflineNvsMeta =
  m_magic :: u32
  m_version :: u32
  m_payloadSize :: u32
  m_recordSize :: u32
  m_timestampBytes :: u32
  m_timestampResolutionUs :: u32
  m_maxEntries :: u32
  m_head :: u32
  m_count :: u32
  m_nextSeq :: u32
  m_importSeq :: u32
  m_recordsPerSegment :: u32
  m_segmentBytes :: u32
  m_drops :: u32

definition OFFLINE_NVS_META_MAGIC :: u32 where
  "OFFLINE_NVS_META_MAGIC = 0x4F424E56"

definition OFFLINE_NVS_META_VERSION :: u32 where
  "OFFLINE_NVS_META_VERSION = 2"

definition OFFLINE_NVS_SEGMENT_BYTES :: u32 where
  "OFFLINE_NVS_SEGMENT_BYTES = 4000"

definition UINT32_MAX :: u32 where
  "UINT32_MAX = 0xFFFFFFFF"

definition defaultMeta :: OfflineNvsMeta where
  "defaultMeta = \<lparr>m_magic = 0, m_version = 0, m_payloadSize = 0, m_recordSize = 0,
     m_timestampBytes = 0, m_timestampResolutionUs = 0, m_maxEntries = 0, m_head = 0,
     m_count = 0, m_nextSeq = 0, m_importSeq = 0, m_recordsPerSegment = 0,
     m_segmentBytes = 0, m_drops = 0\<rparr>"

text \<open>
  Modelled from the spec: the key-value store behind the ESP-IDF calls \<^verbatim>\<open>nvs_open\<close>,
  \<^verbatim>\<open>nvs_get_blob\<close>, \<^verbatim>\<open>nvs_set_blob\<close>, \<^verbatim>\<open>nvs_erase_all\<close> and \<^verbatim>\<open>nvs_commit\<close> (not part of
  the repository).  The specification (4.3) asks for a store ``supporting \<open>get_blob(key)\<close>,
  \<open>set_blob(key, bytes)\<close>, \<open>erase_all()\<close>, \<open>commit()\<close> atomically per call''.  The model holds
  the blobs of the one namespace the object has open: the blob under key \<^verbatim>\<open>meta\<close> (a whole
  \<^verbatim>\<open>OfflineNvsMeta\<close>) and the segment blobs by key.  Whether opening, writing, erasing and
  committing succeed is given by four flags of the environment; a failed call changes
  nothing.
\<close>

record NvsFlash =
  f_metaBlob :: "OfflineNvsMeta option"
  f_segs :: "string \<rightharpoonup> u8 list"
  f_openOk :: bool
  f_setOk :: bool
  f_eraseOk :: bool
  f_commitOk :: bool

definition emptyFlash :: NvsFlash where
  "emptyFlash = \<lparr>f_metaBlob = None, f_segs = Map.empty, f_openOk = True, f_setOk = True,
     f_eraseOk = True, f_commitOk = True\<rparr>"

definition nvs_set_meta :: "OfflineNvsMeta \<Rightarrow> NvsFlash \<Rightarrow> bool \<times> NvsFlash" where
  "nvs_set_meta m fl = (if f_setOk fl then (True, fl\<lparr>f_metaBlob := Some m\<rparr>) else (False, fl))"

definition nvs_set_blob :: "string \<Rightarrow> u8 list \<Rightarrow> NvsFlash \<Rightarrow> bool \<times> NvsFlash" where
  "nvs_set_blob key d fl =
     (if f_setOk fl then (True, fl\<lparr>f_segs := (f_segs fl)(key \<mapsto> d)\<rparr>) else (False, fl))"

definition nvs_erase_all :: "NvsFlash \<Rightarrow> NvsFlash" where
  "nvs_erase_all fl =
     (if f_eraseOk fl then fl\<lparr>f_metaBlob := None, f_segs := Map.empty\<rparr> else fl)"

text \<open>
  \<^verbatim>\<open>class OfflineDataStoreNVS\<close> (the members \<open>n_\<dots>\<close>, as compiled with \<^verbatim>\<open>ESP_PLATFORM\<close>),
  together with the key-value store its handle refers to.
\<close>

record OfflineDataStoreNVS =
  n_nvsNamespace :: string
  n_ready :: bool
  n_metaValid :: bool
  n_meta :: OfflineNvsMeta
  n_effectiveMaxEntries :: u32
  n_nvsHandle :: u32
  n_flash :: NvsFlash

definition newStoreNVS :: "NvsFlash \<Rightarrow> OfflineDataStoreNVS" where
  "newStoreNVS fl = \<lparr>n_nvsNamespace = [], n_ready = False, n_metaValid = False,
     n_meta = defaultMeta, n_effectiveMaxEntries = 0, n_nvsHandle = 0, n_flash = fl\<rparr>"

text \<open>
  \<^verbatim>\<open>bool open()\<close> and \<^verbatim>\<open>void close()\<close>.  A successful \<^verbatim>\<open>nvs_open\<close> stores a handle other
  than 0; the model stores 1.
\<close>

definition openNVS :: "OfflineDataStoreNVS \<Rightarrow> bool \<times> OfflineDataStoreNVS" where
  "openNVS s =
     (if n_nvsHandle s \<noteq> 0 then (True, s)
      else if n_nvsNamespace s = [] then (False, s)
      else if \<not> f_openOk (n_flash s) then (False, s\<lparr>n_nvsHandle := 0\<rparr>)
      else (True, s\<lparr>n_nvsHandle := 1\<rparr>))"

definition closeNVS :: "OfflineDataStoreNVS \<Rightarrow> OfflineDataStoreNVS" where
  "closeNVS s = (if n_nvsHandle s \<noteq> 0 then s\<lparr>n_nvsHandle := 0\<rparr> else s)"

text \<open>
  \<^verbatim>\<open>bool loadMeta()\<close> and \<^verbatim>\<open>bool saveMeta()\<close>.
\<close>

definition loadMeta :: "OfflineDataStoreNVS \<Rightarrow> bool \<times> OfflineDataStoreNVS" where
  "loadMeta s =
     (case openNVS s of
        (False, s1) \<Rightarrow> (False, s1)
      | (True, s1) \<Rightarrow>
          (case f_metaBlob (n_flash s1) of
             None \<Rightarrow> (False, s1\<lparr>n_metaValid := False\<rparr>)
           | Some m \<Rightarrow>
               (let valid = (m_magic m = OFFLINE_NVS_META_MAGIC
                             \<and> m_version m = OFFLINE_NVS_META_VERSION)
                in (valid, s1\<lparr>n_meta := m, n_metaValid := valid\<rparr>))))"

definition saveMeta :: "OfflineDataStoreNVS \<Rightarrow> bool \<times> OfflineDataStoreNVS" where
  "saveMeta s =
     (case openNVS s of
        (False, s1) \<Rightarrow> (False, s1)
      | (True, s1) \<Rightarrow>
          (case nvs_set_meta (n_meta s1) (n_flash s1) of
             (False, fl) \<Rightarrow> (False, s1\<lparr>n_flash := fl\<rparr>)
           | (True, fl) \<Rightarrow> (f_commitOk fl, s1\<lparr>n_flash := fl\<rparr>)))"

text \<open>
  \<^verbatim>\<open>void makeSegmentKey(segIdx, key, keySize)\<close>: \<^verbatim>\<open>snprintf(key, keySize, "s%05u", segIdx)\<close>
  into a buffer of 16 characters, which the at most 11 characters always fit.
\<close>

function decimalDigits :: "nat \<Rightarrow> string" where
  "decimalDigits n =
     (if n < 10 then [char_of (48 + n)]
      else decimalDigits (n div 10) @ [char_of (48 + n mod 10)])"
  by pat_completeness auto
termination
  by (relation "measure id") auto

definition makeSegmentKey :: "u32 \<Rightarrow> string" where
  "makeSegmentKey segIdx =
     (let ds = decimalDigits (unat segIdx)
      in CHR ''s'' # replicate (5 - length ds) CHR ''0'' @ ds)"

text \<open>
  \<^verbatim>\<open>bool readSegment(segIdx, outBuf) const\<close>, for a buffer of \<open>bufSize\<close> bytes: the blob read,
  or \<open>None\<close> when the call returns false (no handle, no such key, or a blob of another
  length).  \<^verbatim>\<open>bool writeSegment(segIdx, data, len)\<close>.
\<close>

definition readSegment :: "u32 \<Rightarrow> nat \<Rightarrow> OfflineDataStoreNVS \<Rightarrow> u8 list option" where
  "readSegment segIdx bufSize s =
     (if n_nvsHandle s = 0 then None
      else (case f_segs (n_flash s) (makeSegmentKey segIdx) of
              None \<Rightarrow> None
            | Some blob \<Rightarrow> if length blob = bufSize then Some blob else None))"

definition writeSegment ::
  "u32 \<Rightarrow> u8 list \<Rightarrow> OfflineDataStoreNVS \<Rightarrow> bool \<times> OfflineDataStoreNVS" where
  "writeSegment segIdx d s =
     (case openNVS s of
        (False, s1) \<Rightarrow> (False, s1)
      | (True, s1) \<Rightarrow>
          (case nvs_set_blob (makeSegmentKey segIdx) d (n_flash s1) of
             (ok, fl) \<Rightarrow> (ok, s1\<lparr>n_flash := fl\<rparr>)))"

text \<open>
  \<^verbatim>\<open>void resetMeta(payloadSize, timestampBytes, timestampResolutionUs, maxEntries)\<close> and
  \<^verbatim>\<open>void clear()\<close>.
\<close>

definition resetMeta ::
  "u32 \<Rightarrow> u32 \<Rightarrow> u32 \<Rightarrow> u32 \<Rightarrow> OfflineDataStoreNVS \<Rightarrow> OfflineDataStoreNVS" where
  "resetMeta payloadSize' timestampBytes' timestampResolutionUs' maxEntries' s =
     s\<lparr>n_meta := (n_meta s)
        \<lparr>m_magic := OFFLINE_NVS_META_MAGIC,
         m_version := OFFLINE_NVS_META_VERSION,
         m_payloadSize := payloadSize',
         m_recordSize := payloadSize' + 4,
         m_timestampBytes := timestampBytes',
         m_timestampResolutionUs := timestampResolutionUs',
         m_maxEntries := maxEntries',
         m_head := 0,
         m_count := 0,
         m_nextSeq := 0,
         m_importSeq := 0,
         m_segmentBytes := OFFLINE_NVS_SEGMENT_BYTES,
         m_recordsPerSegment :=
           (if payloadSize' + 4 \<noteq> 0 then OFFLINE_NVS_SEGMENT_BYTES div (payloadSize' + 4) else 0),
         m_drops := 0\<rparr>\<rparr>"

definition clearNVS :: "OfflineDataStoreNVS \<Rightarrow> OfflineDataStoreNVS" where
  "clearNVS s =
     (case openNVS s of
        (False, s1) \<Rightarrow> s1
      | (True, s1) \<Rightarrow>
          s1\<lparr>n_flash := nvs_erase_all (n_flash s1), n_metaValid := False, n_ready := False\<rparr>)"

text \<open>
  \<^verbatim>\<open>bool configure(nvsNamespace, payloadSize, timestampBytes, timestampResolutionUs,
  maxEntries)\<close>; a null \<^verbatim>\<open>nvsNamespace\<close> is \<open>None\<close>.  The model has the blobs of one
  namespace only, so it describes an object that is configured for one namespace.
\<close>

definition configure ::
  "string option \<Rightarrow> u32 \<Rightarrow> u32 \<Rightarrow> u32 \<Rightarrow> u32 \<Rightarrow> OfflineDataStoreNVS
     \<Rightarrow> bool \<times> OfflineDataStoreNVS" where
  "configure nvsNamespace payloadSize' timestampBytes' timestampResolutionUs' maxEntries' s =
     (case nvsNamespace of
        None \<Rightarrow> (False, s)
      | Some ns \<Rightarrow>
          if payloadSize' = 0 \<or> maxEntries' = 0 then (False, s)
          else
            (let s0 = (if n_nvsNamespace s \<noteq> ns then (closeNVS s)\<lparr>n_nvsNamespace := ns\<rparr> else s)
             in case openNVS s0 of
                  (False, s1) \<Rightarrow> (False, s1)
                | (True, s1) \<Rightarrow>
                    (let finish = (\<lambda>t. (True, t\<lparr>n_ready := True, n_metaValid := True,
                                         n_effectiveMaxEntries := m_maxEntries (n_meta t)\<rparr>));
                         reinit = (\<lambda>t.
                           (let t1 = resetMeta payloadSize' timestampBytes' timestampResolutionUs'
                                       maxEntries' t
                            in if m_recordsPerSegment (n_meta t1) = 0 then (False, t1)
                               else (case saveMeta t1 of
                                       (False, t2) \<Rightarrow> (False, t2)
                                     | (True, t2) \<Rightarrow> finish t2)))
                     in case loadMeta s1 of
                          (False, s2) \<Rightarrow> reinit s2
                        | (True, s2) \<Rightarrow>
                            (let m = n_meta s2;
                                 metaCompatible =
                                   (m_magic m = OFFLINE_NVS_META_MAGIC
                                    \<and> m_version m = OFFLINE_NVS_META_VERSION
                                    \<and> m_payloadSize m = payloadSize'
                                    \<and> m_timestampBytes m = timestampBytes'
                                    \<and> m_timestampResolutionUs m = timestampResolutionUs'
                                    \<and> m_recordSize m = payloadSize' + 4
                                    \<and> m_recordsPerSegment m > 0
                                    \<and> m_segmentBytes m > 0)
                             in if \<not> metaCompatible then reinit (clearNVS s2)
                                else finish s2))))"

text \<open>
  \<^verbatim>\<open>isReady\<close>, \<^verbatim>\<open>getCount\<close>, \<^verbatim>\<open>getNextSeq\<close> and \<^verbatim>\<open>setEffectiveMaxEntries\<close>.
\<close>

definition isReady :: "OfflineDataStoreNVS \<Rightarrow> bool" where
  "isReady s = (n_ready s \<and> n_metaValid s)"



definition setEffectiveMaxEntries :: "u32 \<Rightarrow> OfflineDataStoreNVS \<Rightarrow> OfflineDataStoreNVS" where
  "setEffectiveMaxEntries maxEntries' s =
     (if \<not> n_metaValid s then s
      else
        (let eff = (if maxEntries' = 0 \<or> maxEntries' > m_maxEntries (n_meta s)
                    then m_maxEntries (n_meta s) else maxEntries');
             s1 = s\<lparr>n_effectiveMaxEntries := eff\<rparr>
         in if m_count (n_meta s1) > eff
            then snd (saveMeta (s1\<lparr>n_meta := (n_meta s1)
                   \<lparr>m_drops := m_drops (n_meta s1) + (m_count (n_meta s1) - eff),
                    m_count := eff\<rparr>\<rparr>))
            else s1))"

text \<open>
  Modelled from the spec: \<^verbatim>\<open>Raft::setLEUInt32\<close> and \<^verbatim>\<open>Raft::getLEUInt32AndInc\<close> (RaftUtils,
  not among the sources).  A segment record is ``little-endian \<open>adjustedTsMs\<close> followed by
  payload'': four bytes, least significant first.
\<close>

definition leBytes32 :: "u32 \<Rightarrow> u8 list" where
  "leBytes32 v = [ucast v, ucast (drop_bit 8 v), ucast (drop_bit 16 v), ucast (drop_bit 24 v)]"

definition setLEUInt32 :: "u8 list \<Rightarrow> nat \<Rightarrow> u32 \<Rightarrow> u8 list" where
  "setLEUInt32 buf off v = memWrite buf off (leBytes32 v)"


text \<open>
  \<^verbatim>\<open>appendBatch\<close>: the state of its loop.  The locals \<^verbatim>\<open>segBuf\<close>, \<^verbatim>\<open>currentSegIdx\<close>,
  \<^verbatim>\<open>segDirty\<close> and the out-parameter \<^verbatim>\<open>outLastSeq\<close> travel with the object.
\<close>

record AppendState =
  a_store :: OfflineDataStoreNVS
  a_segBuf :: "u8 list"
  a_currentSegIdx :: u32
  a_segDirty :: bool
  a_outLastSeq :: u32

text \<open>
  The lambda \<^verbatim>\<open>flushSeg\<close> of \<^verbatim>\<open>appendBatch\<close>.
\<close>

definition flushSeg :: "AppendState \<Rightarrow> bool \<times> AppendState" where
  "flushSeg st =
     (if a_currentSegIdx st = UINT32_MAX \<or> \<not> a_segDirty st then (True, st)
      else (case writeSegment (a_currentSegIdx st) (a_segBuf st) (a_store st) of
              (ok, s1) \<Rightarrow> (ok, st\<lparr>a_store := s1, a_segDirty := False\<rparr>)))"

text \<open>
  One pass of the body of the \<^verbatim>\<open>for\<close> loop of \<^verbatim>\<open>appendBatch\<close> at index \<open>ii\<close>; the result
  is \<open>False\<close> where the body leaves the function with \<^verbatim>\<open>return false\<close>.  The local
  \<^verbatim>\<open>recordSize\<close> is \<^verbatim>\<open>_meta.recordSize\<close>, which the loop never changes.  The divisions by
  \<^verbatim>\<open>_meta.recordsPerSegment\<close> and \<^verbatim>\<open>_meta.maxEntries\<close> are those of HOL (\<open>x div 0 = 0\<close>,
  \<open>x mod 0 = x\<close>), where C++ leaves a division by 0 undefined; \<^verbatim>\<open>configure\<close> refuses
  \<^verbatim>\<open>maxEntries = 0\<close>, and \<^verbatim>\<open>configure\<close> and the sequence-gap branch refuse a meta with
  \<^verbatim>\<open>recordsPerSegment = 0\<close>.
\<close>

definition appendStep ::
  "u8 list \<Rightarrow> u32 \<Rightarrow> u32 list \<Rightarrow> u32 \<Rightarrow> u32 \<Rightarrow> u32 \<Rightarrow> AppendState \<Rightarrow> bool \<times> AppendState" where
  "appendStep payloads payloadSize' adjTsMs firstSeq' effectiveMaxEntries ii st =
     (let meta = n_meta (a_store st);
          recordSize = m_recordSize meta;
          seqNo = firstSeq' + ii;
          writeIdx = m_head meta;
          segIdx = writeIdx div m_recordsPerSegment meta;
          segOffset = (writeIdx mod m_recordsPerSegment meta) * recordSize;
          (flushOk, st1) =
            (if segIdx \<noteq> a_currentSegIdx st then
               (case flushSeg st of
                  (False, stf) \<Rightarrow> (False, stf)
                | (True, stf) \<Rightarrow>
                    (True, stf\<lparr>a_currentSegIdx := segIdx,
                       a_segBuf :=
                         (case readSegment segIdx (length (a_segBuf stf)) (a_store stf) of
                            Some blob \<Rightarrow> blob
                          | None \<Rightarrow> replicate (length (a_segBuf stf)) 0)\<rparr>))
             else (True, st))
      in if \<not> flushOk then (False, st1)
         else
           (let buf1 = setLEUInt32 (a_segBuf st1) (unat segOffset) (adjTsMs ! unat ii);
                buf2 = memWrite buf1 (unat segOffset + 4)
                         (memRead payloads (unat (ii * payloadSize')) (unat payloadSize'));
                s1 = a_store st1;
                meta1 = n_meta s1;
                meta2 = meta1
                  \<lparr>m_head := (m_head meta1 + 1) mod m_maxEntries meta1,
                   m_count := (if m_count meta1 < effectiveMaxEntries
                               then m_count meta1 + 1 else m_count meta1),
                   m_drops := (if m_count meta1 < effectiveMaxEntries
                               then m_drops meta1 else m_drops meta1 + 1),
                   m_nextSeq := seqNo + 1\<rparr>
            in (True, st1\<lparr>a_segBuf := buf2, a_segDirty := True,
                  a_store := s1\<lparr>n_meta := meta2\<rparr>, a_outLastSeq := seqNo\<rparr>)))"

text \<open>
  The loop \<^verbatim>\<open>for (ii = skip; ii < count; ii++)\<close>, with \<open>n\<close> passes still to make from
  index \<open>ii\<close>.
\<close>

fun appendLoop ::
  "u8 list \<Rightarrow> u32 \<Rightarrow> u32 list \<Rightarrow> u32 \<Rightarrow> u32 \<Rightarrow> nat \<Rightarrow> u32 \<Rightarrow> AppendState \<Rightarrow> bool \<times> AppendState" where
  "appendLoop payloads payloadSize' adjTsMs firstSeq' effectiveMaxEntries 0 ii st = (True, st)"
| "appendLoop payloads payloadSize' adjTsMs firstSeq' effectiveMaxEntries (Suc n) ii st =
     (case appendStep payloads payloadSize' adjTsMs firstSeq' effectiveMaxEntries ii st of
        (False, st1) \<Rightarrow> (False, st1)
      | (True, st1) \<Rightarrow>
          appendLoop payloads payloadSize' adjTsMs firstSeq' effectiveMaxEntries n (ii + 1) st1)"

text \<open>
  \<^verbatim>\<open>bool appendBatch(payloads, payloadSize, adjTsMs, firstSeq, count, outLastSeq)\<close>, as
  compiled with \<^verbatim>\<open>ESP_PLATFORM\<close>, in the three blocks of its body.  First the local
  \<^verbatim>\<open>effectiveMaxEntries\<close>.
\<close>

definition effectiveMax :: "OfflineDataStoreNVS \<Rightarrow> u32" where
  "effectiveMax s =
     (if n_effectiveMaxEntries s > 0 then n_effectiveMaxEntries s else m_maxEntries (n_meta s))"

text \<open>
  The alignment of \<^verbatim>\<open>_meta.nextSeq\<close> with \<^verbatim>\<open>firstSeq\<close>
  (\<^verbatim>\<open>if (_meta.count == 0) \<dots> else if (firstSeq > _meta.nextSeq) \<dots>\<close>); the result is
  \<open>False\<close> where the block leaves the function with \<^verbatim>\<open>return false\<close>.
\<close>

definition alignSeq :: "u32 \<Rightarrow> u32 \<Rightarrow> OfflineDataStoreNVS \<Rightarrow> bool \<times> OfflineDataStoreNVS" where
  "alignSeq payloadSize' firstSeq' s =
     (if m_count (n_meta s) = 0
      then (True, s\<lparr>n_meta := (n_meta s)\<lparr>m_nextSeq := firstSeq'\<rparr>\<rparr>)
      else if firstSeq' > m_nextSeq (n_meta s) then
        (let c = clearNVS s;
             r = (resetMeta payloadSize' (m_timestampBytes (n_meta c))
                    (m_timestampResolutionUs (n_meta c)) (m_maxEntries (n_meta c)) c)
                   \<lparr>n_metaValid := True, n_ready := True\<rparr>
         in if m_recordsPerSegment (n_meta r) = 0 then (False, r)
            else (case saveMeta r of
                    (False, r1) \<Rightarrow> (False, r1)
                  | (True, r1) \<Rightarrow> (True, r1\<lparr>n_meta := (n_meta r1)\<lparr>m_nextSeq := firstSeq'\<rparr>\<rparr>)))
      else (True, s))"

text \<open>
  The rest of the body, from \<^verbatim>\<open>uint32_t skip = 0;\<close> to \<^verbatim>\<open>return saveMeta();\<close>: the
  result, \<^verbatim>\<open>outLastSeq\<close> and the object.
\<close>

definition appendFrom ::
  "u8 list \<Rightarrow> u32 \<Rightarrow> u32 list \<Rightarrow> u32 \<Rightarrow> u32 \<Rightarrow> u32 \<Rightarrow> OfflineDataStoreNVS
     \<Rightarrow> bool \<times> u32 \<times> OfflineDataStoreNVS" where
  "appendFrom payloads payloadSize' adjTsMs firstSeq' count' effectiveMaxEntries s1 =
     (if firstSeq' < m_nextSeq (n_meta s1) \<and> m_nextSeq (n_meta s1) - firstSeq' \<ge> count'
      then (True, (if m_nextSeq (n_meta s1) > 0 then m_nextSeq (n_meta s1) - 1 else 0), s1)
      else
        (let skip = (if firstSeq' < m_nextSeq (n_meta s1)
                     then m_nextSeq (n_meta s1) - firstSeq' else 0);
             segmentBytes = m_recordsPerSegment (n_meta s1) * m_recordSize (n_meta s1);
             st0 = \<lparr>a_store = s1, a_segBuf = replicate (unat segmentBytes) 0,
                    a_currentSegIdx = UINT32_MAX, a_segDirty = False, a_outLastSeq = 0\<rparr>
         in case appendLoop payloads payloadSize' adjTsMs firstSeq' effectiveMaxEntries
                   (unat count' - unat skip) skip st0 of
              (False, st1) \<Rightarrow> (False, a_outLastSeq st1, a_store st1)
            | (True, st1) \<Rightarrow>
                (case flushSeg st1 of
                   (False, st2) \<Rightarrow> (False, a_outLastSeq st2, a_store st2)
                 | (True, st2) \<Rightarrow>
                     (case saveMeta (a_store st2) of
                        (ok, s3) \<Rightarrow> (ok, a_outLastSeq st2, s3)))))"

text \<open>
  The function: the checks at its head, then the three blocks.  The sizes of the
  vectors are compared as \<^verbatim>\<open>size_t\<close> with the 32-bit \<^verbatim>\<open>count\<close> and with the 32-bit product
  \<^verbatim>\<open>count * payloadSize\<close>.
\<close>

definition appendBatch ::
  "u8 list \<Rightarrow> u32 \<Rightarrow> u32 list \<Rightarrow> u32 \<Rightarrow> u32 \<Rightarrow> OfflineDataStoreNVS
     \<Rightarrow> bool \<times> u32 \<times> OfflineDataStoreNVS" where
  "appendBatch payloads payloadSize' adjTsMs firstSeq' count' s =
     (if \<not> n_ready s \<or> \<not> n_metaValid s then (False, 0, s)
      else if payloadSize' \<noteq> m_payloadSize (n_meta s) then (False, 0, s)
      else if count' = 0 \<or> length adjTsMs < unat count' then (False, 0, s)
      else if length payloads < unat (count' * payloadSize') then (False, 0, s)
      else if effectiveMax s = 0 then (False, 0, s)
      else (case alignSeq payloadSize' firstSeq' s of
              (False, s1) \<Rightarrow> (False, 0, s1)
            | (True, s1) \<Rightarrow>
                appendFrom payloads payloadSize' adjTsMs firstSeq' count' (effectiveMax s) s1))"

text \<open>
  The calls of \<^verbatim>\<open>appendBatch\<close> that pass the checks at its head.
\<close>

definition appendAccepted ::
  "u8 list \<Rightarrow> u32 \<Rightarrow> u32 list \<Rightarrow> u32 \<Rightarrow> OfflineDataStoreNVS \<Rightarrow> bool" where
  "appendAccepted payloads payloadSize' adjTsMs count' s =
     (n_ready s \<and> n_metaValid s \<and> payloadSize' = m_payloadSize (n_meta s)
      \<and> count' \<noteq> 0 \<and> unat count' \<le> length adjTsMs
      \<and> unat (count' * payloadSize') \<le> length payloads
      \<and> effectiveMax s \<noteq> 0)"






text \<open>
  A store configured on an empty key-value store for two-byte payloads and four
  entries, and the same store after a batch of \<open>k\<close> records with the sequence numbers
  \<open>0, 1, \<dots>\<close> and the payloads \<open>[0, 0], [0, 1], \<dots>\<close>.
\<close>

definition freshNVS :: OfflineDataStoreNVS where
  "freshNVS = snd (configure (Some ''dev1'') 2 1 1000 4 (newStoreNVS emptyFlash))"

definition batchPayloads :: "nat \<Rightarrow> u8 list" where
  "batchPayloads k = concat (map (\<lambda>i. [0, of_nat i]) [0..<k])"

definition batchTs :: "nat \<Rightarrow> u32 list" where
  "batchTs k = map (\<lambda>i. 1000 + of_nat i) [0..<k]"

definition appendedNVS :: "nat \<Rightarrow> OfflineDataStoreNVS" where
  "appendedNVS k = snd (snd (appendBatch (batchPayloads k) 2 (batchTs k) 0 (of_nat k) freshNVS))"

text \<open>
  The store after the two records, on a key-value store whose \<^verbatim>\<open>nvs_commit\<close> fails from
  then on.
\<close>

definition commitFailNVS :: OfflineDataStoreNVS where
  "commitFailNVS = (appendedNVS 2)\<lparr>n_flash := (n_flash (appendedNVS 2))\<lparr>f_commitOk := False\<rparr>\<rparr>"




section \<open>Invariants of the RAM ring\<close>


text \<open>
  The sequence counter: at least the count, and zero (with the count) on a store that
  accepts no \<^verbatim>\<open>put\<close>.
\<close>

definition seqInv :: "OfflineDataStore \<Rightarrow> bool" where
  "seqInv s \<longleftrightarrow> r_count s \<le> r_nextSeq s
      \<and> (\<not> isConfigured s \<longrightarrow> r_nextSeq s = 0 \<and> r_count s = 0)"

text \<open>
  A well-formed ring: configured, with the vectors \<^verbatim>\<open>init\<close> allocated, storage of
  \<open>maxEntries * (payloadSize + 4)\<close> bytes that fits a 32-bit address space (so that no
  index computation of the source overflows), and the counters in range.
\<close>

definition ringWf :: "OfflineDataStore \<Rightarrow> bool" where
  "ringWf s \<longleftrightarrow>
       0 < unat (r_maxEntries s) \<and> 0 < unat (r_payloadSize s)
     \<and> unat (r_maxEntries s) * (unat (r_payloadSize s) + 4) < 2 ^ 32
     \<and> length (r_ringBuffer s) = unat (r_maxEntries s) * unat (r_payloadSize s)
     \<and> length (r_adjTimestampMs s) = unat (r_maxEntries s)
     \<and> unat (r_headIdx s) < unat (r_maxEntries s)
     \<and> unat (r_count s) \<le> unat (r_maxEntries s)"

text \<open>
  The ring seen as a list: slot \<open>i\<close> holds a payload and an adjusted timestamp, the
  \<open>k\<close>-th oldest stored entry lives in slot \<open>(head + maxEntries - count + k) mod maxEntries\<close>,
  and \<open>storedSlots\<close> lists the stored entries, oldest first.
\<close>

definition slotEntry :: "OfflineDataStore \<Rightarrow> nat \<Rightarrow> u8 list \<times> u32" where
  "slotEntry s i =
     (memRead (r_ringBuffer s) (i * unat (r_payloadSize s)) (unat (r_payloadSize s)),
      r_adjTimestampMs s ! i)"

definition physIdx :: "OfflineDataStore \<Rightarrow> nat \<Rightarrow> nat" where
  "physIdx s k =
     (unat (r_headIdx s) + unat (r_maxEntries s) - unat (r_count s) + k) mod unat (r_maxEntries s)"

definition storedSlots :: "OfflineDataStore \<Rightarrow> (u8 list \<times> u32) list" where
  "storedSlots s = map (\<lambda>k. slotEntry s (physIdx s k)) [0..<unat (r_count s)]"

text \<open>
  The entries a \<^verbatim>\<open>get\<close> without caps returns (\<^verbatim>\<open>maxResponsesToReturn = 0\<close>,
  \<^verbatim>\<open>maxBytes = 0\<close>, \<^verbatim>\<open>startIdx = 0\<close>), as payloads.
\<close>

definition storedPayloads :: "OfflineDataStore \<Rightarrow> u8 list list" where
  "storedPayloads s =
     map fst (getLoop s (unat (r_count s)) 0
                ((r_headIdx s + r_maxEntries s - r_count s + 0) mod r_maxEntries s)
                (if r_nextSeq s > r_count s then r_nextSeq s - r_count s + 0 else 0))"

text \<open>
  The metadata \<^verbatim>\<open>get\<close> builds from a slot (payload and adjusted timestamp), and the
  absolute time in milliseconds a consumer reconstructs from a returned record:
  \<open>tsBaseMs + ts \<times> (timestampResolutionUs / 1000)\<close>.
\<close>

definition slotMeta :: "OfflineDataStore \<Rightarrow> u8 list \<times> u32 \<Rightarrow> u32 \<Rightarrow> OfflineDataMeta" where
  "slotMeta s e seqNo =
     (let tsResolutionMs = r_timestampResolutionUs s div 1000;
          tsRaw = (ucast (extractTs (r_timestampBytes s) (fst e)) :: u32);
          adjustedTsMs = (ucast (snd e) :: u64);
          tsComponentMs = (if tsResolutionMs \<noteq> 0
                           then (ucast tsRaw :: u64) * ucast tsResolutionMs else 0)
      in \<lparr>seq = seqNo, ts = tsRaw,
          tsBaseMs = (if adjustedTsMs \<ge> tsComponentMs
                      then adjustedTsMs - tsComponentMs else 0)\<rparr>)"

definition metaAdjustedMs :: "OfflineDataStore \<Rightarrow> OfflineDataMeta \<Rightarrow> nat" where
  "metaAdjustedMs s m =
     unat (tsBaseMs m) + unat (ts m) * unat (r_timestampResolutionUs s div 1000)"

text \<open>
  The 64-bit value \<^verbatim>\<open>adjustedTsMs = _timestampBaseMs + (uint64_t)tsVal * tsResolutionMs\<close>
  of the most recent accepted \<^verbatim>\<open>put\<close>, recomputed from the members that \<^verbatim>\<open>put\<close> left
  behind.  \<^verbatim>\<open>put\<close> stores its low 32 bits in \<^verbatim>\<open>_adjTimestampMs\<close>.
\<close>

definition lastAdjustedTsMs :: "OfflineDataStore \<Rightarrow> u64" where
  "lastAdjustedTsMs s =
     r_timestampBaseMs s
       + ucast (r_lastTimestampVal s) * ucast (r_timestampResolutionUs s div 1000)"

text \<open>
  A run in which every \<^verbatim>\<open>init\<close> asks for storage that fits a 32-bit address space, and the
  adjusted timestamp of every accepted \<^verbatim>\<open>put\<close> fits the 32-bit side array.
\<close>

fun tsRunOk :: "RingOp list \<Rightarrow> OfflineDataStore \<Rightarrow> bool" where
  "tsRunOk [] s = True"
| "tsRunOk (OpInit m p tb res # ops) s =
     (unat m * (unat p + 4) < 2 ^ 32 \<and> tsRunOk ops (applyOp (OpInit m p tb res) s))"
| "tsRunOk (OpPut t sq d # ops) s =
     ((fst (put t sq d s) \<longrightarrow> lastAdjustedTsMs (snd (put t sq d s)) < 2 ^ 32)
      \<and> tsRunOk ops (applyOp (OpPut t sq d) s))"
| "tsRunOk (op # ops) s = tsRunOk ops (applyOp op s)"

text \<open>
  What the timestamp extraction can yield for a given width: one byte stays below 256,
  and a width other than 1, 2 or 4 yields 0.
\<close>

definition tsRange :: "u32 \<Rightarrow> u16 \<Rightarrow> bool" where
  "tsRange tsBytes v \<longleftrightarrow>
     (tsBytes = 1 \<longrightarrow> unat v < 256) \<and> (tsBytes \<noteq> 1 \<and> tsBytes \<noteq> 2 \<and> tsBytes \<noteq> 4 \<longrightarrow> v = 0)"

text \<open>
  The timestamp state of a ring: the wrap span is the one \<^verbatim>\<open>init\<close> computed; stored entries
  imply a valid last timestamp; the last adjusted timestamp fits 32 bits; every stored
  adjusted timestamp is at least the raw timestamp of its payload (in milliseconds) and at
  most the last adjusted timestamp; and the stored adjusted timestamps ascend.
\<close>

definition tsInv :: "OfflineDataStore \<Rightarrow> bool" where
  "tsInv s \<longleftrightarrow>
       r_timestampWrapMs s
         = push_bit (unat (r_timestampBytes s * 8)) (1 :: u64)
             * ucast (r_timestampResolutionUs s div 1000)
     \<and> (r_count s \<noteq> 0 \<longrightarrow> r_lastTimestampValid s)
     \<and> (r_lastTimestampValid s \<longrightarrow>
           tsRange (r_timestampBytes s) (r_lastTimestampVal s)
         \<and> unat (r_timestampBaseMs s)
             + unat (r_lastTimestampVal s) * unat (r_timestampResolutionUs s div 1000) < 2 ^ 32)
     \<and> (\<forall>e \<in> set (storedSlots s).
           unat (extractTs (r_timestampBytes s) (fst e)) * unat (r_timestampResolutionUs s div 1000)
             \<le> unat (snd e)
         \<and> unat (snd e)
             \<le> unat (r_timestampBaseMs s)
                + unat (r_lastTimestampVal s) * unat (r_timestampResolutionUs s div 1000))
     \<and> sorted (map (\<lambda>e. unat (snd e)) (storedSlots s))"







text \<open>
  The store that the sequence-gap branch of \<^verbatim>\<open>appendBatch\<close> leaves when every call of the
  key-value store succeeds: no segment blobs, the re-initialised meta saved under
  \<^verbatim>\<open>meta\<close>, and the object valid and ready with that meta.
\<close>

definition erasedStore :: "u32 \<Rightarrow> OfflineDataStoreNVS \<Rightarrow> OfflineDataStoreNVS" where
  "erasedStore payloadSize' s =
     (let r = resetMeta payloadSize' (m_timestampBytes (n_meta s))
                (m_timestampResolutionUs (n_meta s)) (m_maxEntries (n_meta s)) s
      in r\<lparr>n_metaValid := True, n_ready := True,
           n_flash := (n_flash s)\<lparr>f_metaBlob := Some (n_meta r), f_segs := Map.empty\<rparr>\<rparr>)"

section \<open>BusAddrStatus: properties\<close>

lemma countAsU32_small:
  assumes "unat c < 128"
  shows "unat (countAsU32 c) = unat c"
proof -
  have "c < 128" using assms by (simp add: word_less_nat_alt)
  then have u: "uint c < 128" by (simp add: word_less_def)
  have u0: "0 \<le> uint c" by simp
  have lo: "- (2 ^ 7) \<le> uint c"
  proof -
    have a: "(0::int) \<le> uint c" by simp
    have b: "- (2 ^ 7) \<le> (0::int)" by simp
    show ?thesis by (rule order_trans [OF b a])
  qed
  have hi: "uint c < 2 ^ 7" using u by simp
  have "signed_take_bit 7 (uint c) = uint c"
    by (rule signed_take_bit_int_eq_self [OF lo hi])
  then have "sint c = uint c"
    by (simp add: sint_uint)
  then have eq: "countAsU32 c = ucast c"
    by (simp add: countAsU32_def scast_eq)
  have "unat (ucast c :: 32 word) = take_bit 32 (unat c)"
    by (simp add: unsigned_ucast_eq)
  also have "\<dots> = unat c"
    by (rule take_bit_nat_eq_self) (use assms in simp)
  finally show ?thesis by (simp add: eq)
qed

lemma respond_step:
  assumes "\<not> isOnline s" and "unat (count s) + 1 < unat okMax" and "unat okMax \<le> 128"
  shows "handleResponding True fl okMax failMax s = (False, fl, s\<lparr>count := count s + 1\<rparr>)"
proof -
  have c: "unat (count s) < 127" using assms by simp
  then have c1: "unat (count s + 1) = unat (count s) + 1"
    by (simp add: unat_word_ariths)
  have lt: "countAsU32 (count s) < okMax"
    using assms c by (simp add: word_less_nat_alt countAsU32_small)
  have nge: "\<not> okMax \<le> countAsU32 (count s + 1)"
    using assms c c1 by (simp add: word_le_nat_alt countAsU32_small)
  show ?thesis
    using assms(1) lt nge by (simp add: handleResponding_def)
qed

lemma respond_last:
  assumes "\<not> isOnline s" and "unat (count s) + 1 = unat okMax" and "unat okMax \<le> 128"
  shows "handleResponding True fl okMax failMax s =
    (True, fl, s\<lparr>isChange := \<not> isChange s, count := 0, isOnline := True,
                onlineState := ONLINE, wasOnceOnline := True, flagForDeletion := False\<rparr>)"
proof -
  have c: "unat (count s) < 128" using assms by simp
  have lt: "countAsU32 (count s) < okMax"
    using assms c by (simp add: word_less_nat_alt countAsU32_small)
  have ge: "okMax \<le> countAsU32 (count s + 1)"
  proof (cases "unat (count s) = 127")
    case True
    then have "count s = 127" by (simp add: word_unat_eq_iff)
    then have "countAsU32 (count s + 1) = - 128" by (simp add: countAsU32_def)
    then show ?thesis using assms(3) by (simp add: word_le_nat_alt)
  next
    case False
    then have c': "unat (count s) < 127" using c by simp
    then have "unat (count s + 1) = unat (count s) + 1"
      by (simp add: unat_word_ariths)
    then show ?thesis using assms c' by (simp add: word_le_nat_alt countAsU32_small)
  qed
  show ?thesis
    using assms(1) lt ge by (simp add: handleResponding_def)
qed


lemma observeN_reaches_online:
  assumes "\<not> isOnline s" and "unat (count s) + n = unat okMax" and "0 < n"
    and "unat okMax \<le> 128"
  shows "observeN n True okMax failMax s =
    (replicate (n - 1) (False, False) @ [(True, False)],
     s\<lparr>isChange := \<not> isChange s, count := 0, isOnline := True,
       onlineState := ONLINE, wasOnceOnline := True, flagForDeletion := False\<rparr>)"
  using assms
proof (induction n arbitrary: s)
  case 0
  then show ?case by simp
next
  case (Suc n)
  show ?case
  proof (cases "n = 0")
    case True
    then have "unat (count s) + 1 = unat okMax" using Suc.prems by simp
    from respond_last [OF Suc.prems(1) this Suc.prems(4)] True
    show ?thesis by simp
  next
    case False
    let ?s' = "s\<lparr>count := count s + 1\<rparr>"
    have lt: "unat (count s) + 1 < unat okMax" using Suc.prems False by simp
    have step: "handleResponding True False okMax failMax s = (False, False, ?s')"
      by (rule respond_step [OF Suc.prems(1) lt Suc.prems(4)])
    have "unat (count s) < 127" using lt Suc.prems(4) by simp
    then have c1: "unat (count s + 1) = unat (count s) + 1"
      by (simp add: unat_word_ariths)
    have ih: "observeN n True okMax failMax ?s' =
      (replicate (n - 1) (False, False) @ [(True, False)],
       ?s'\<lparr>isChange := \<not> isChange ?s', count := 0, isOnline := True,
         onlineState := ONLINE, wasOnceOnline := True, flagForDeletion := False\<rparr>)"
      by (rule Suc.IH) (use Suc.prems False c1 in simp_all)
    have rep: "(False, False) # replicate (n - 1) (False, False) = replicate n (False, False)"
      using False by (cases n) simp_all
    show ?thesis
      using step ih rep by simp
  qed
qed

text \<open>
  Claim C4, amended.  Starting from \<^verbatim>\<open>count = 0\<close> and not online, \<open>okMax\<close> calls of
  \<^verbatim>\<open>handleResponding(true, ...)\<close> return false on every call but the last and true on
  the \<open>okMax\<close>-th, which sets \<^verbatim>\<open>isOnline\<close> and \<^verbatim>\<open>wasOnceOnline\<close>, clears
  \<^verbatim>\<open>flagForDeletion\<close> and resets \<^verbatim>\<open>count\<close> to 0, provided \<open>1 \<le> okMax \<le> 128\<close>: the
  counter is an \<^verbatim>\<open>int8_t\<close>.
\<close>

theorem C4_online_on_okMax_th_call:
  assumes "count s = 0" and "\<not> isOnline s" and "1 \<le> unat okMax" and "unat okMax \<le> 128"
  shows "observeN (unat okMax) True okMax failMax s =
    (replicate (unat okMax - 1) (False, False) @ [(True, False)],
     s\<lparr>isChange := \<not> isChange s, count := 0, isOnline := True,
       onlineState := ONLINE, wasOnceOnline := True, flagForDeletion := False\<rparr>)"
  by (rule observeN_reaches_online) (use assms in simp_all)

theorem C4_online_on_okMax_th_call_witness:
  "count initialStatus = 0 \<and> \<not> isOnline initialStatus \<and> 1 \<le> unat (2::u32) \<and> unat (2::u32) \<le> 128 \<and>
   observeN 2 True 2 3 initialStatus =
    ([(False, False), (True, False)],
     initialStatus\<lparr>isChange := True, count := 0, isOnline := True,
       onlineState := ONLINE, wasOnceOnline := True, flagForDeletion := False\<rparr>)"
proof -
  have h1: "count initialStatus = 0" and h2: "\<not> isOnline initialStatus"
    by (simp_all add: initialStatus_def)
  have u: "unat (2::u32) = 2" by simp
  have h3: "1 \<le> unat (2::u32)" and h4: "unat (2::u32) \<le> 128" by (simp_all only: u)
  have "observeN (unat (2::u32)) True 2 3 initialStatus =
    (replicate (unat (2::u32) - 1) (False, False) @ [(True, False)],
     initialStatus\<lparr>isChange := \<not> isChange initialStatus, count := 0, isOnline := True,
       onlineState := ONLINE, wasOnceOnline := True, flagForDeletion := False\<rparr>)"
    by (rule C4_online_on_okMax_th_call [OF h1 h2 h3 h4])
  then have "observeN 2 True 2 3 initialStatus =
    ([(False, False), (True, False)],
     initialStatus\<lparr>isChange := True, count := 0, isOnline := True,
       onlineState := ONLINE, wasOnceOnline := True, flagForDeletion := False\<rparr>)"
    unfolding u by (simp add: initialStatus_def)
  with h1 h2 h3 h4 show ?thesis by blast
qed

text \<open>
  Claim C4 as stated (any \<open>okMax\<close>) fails: with \<open>okMax = 129\<close> the counter reaches 127
  after 127 calls, the 128th call narrows 128 to the \<^verbatim>\<open>int8_t\<close> value \<open>-128\<close>, which
  compares as \<open>0xFFFFFF80 \<ge> 129\<close>, and the call returns true one call early.
\<close>

theorem C4_large_okMax_counterexample:
  "map fst (fst (observeN 129 True 129 3 initialStatus)) ! 127 = True"
  by code_simp

text \<open>
  Claim C3 (offline only after \<open>failMax\<close> consecutive failures) against the code: from
  the never-online initial status with \<open>failMax = 3\<close>, the first of three
  \<^verbatim>\<open>handleResponding(false, ...)\<close> calls already returns true with the spurious flag set
  (and so does every later one).  \<^verbatim>\<open>count < -failMax\<close> is the unsigned comparison
  \<open>0 < 0xFFFFFFFD\<close>, so the counter is not decremented, and \<^verbatim>\<open>count <= -failMax\<close> is
  \<open>0 \<le> 0xFFFFFFFD\<close>, which holds at once.
\<close>

theorem C3_offline_on_first_failure:
  "fst (observeN 3 False 2 3 initialStatus) = [(True, True), (True, True), (True, True)]"
  by code_simp


section \<open>OfflineDataStore: the shape of get\<close>

lemma getNum_le_avail:
  "getNumResponses mx mb S s \<le> r_count s - S"
  unfolding getNumResponses_def Let_def by (auto simp: not_less)

lemma getNum_nonzero_conds:
  assumes "getNumResponses mx mb S s \<noteq> 0"
  shows "isConfigured s" "r_count s \<noteq> 0" "\<not> r_count s \<le> S"
  using assms unfolding getNumResponses_def by (auto split: if_splits)

lemma get_alt:
  "get rs mx c st mb s =
     (if getNumResponses mx mb (getStartIdx c st) s = 0
      then (if isConfigured s \<and> r_count s \<noteq> 0 \<and> \<not> r_count s \<le> getStartIdx c st
               \<and> \<not> (0 < mb \<and> (if r_payloadSize s + META_STORAGE_BYTES \<noteq> 0
                     then mb div (r_payloadSize s + META_STORAGE_BYTES) else 0) = 0)
            then getNothing (r_payloadSize s) s else getNothing rs s)
      else
       \<lparr>g_numResponses = getNumResponses mx mb (getStartIdx c st) s,
        g_data = concat (map fst (getLoop s (unat (getNumResponses mx mb (getStartIdx c st) s)) 0
                   ((r_headIdx s + r_maxEntries s - r_count s + getStartIdx c st) mod r_maxEntries s)
                   (if r_nextSeq s > r_count s
                        then r_nextSeq s - r_count s + getStartIdx c st else getStartIdx c st))),
        g_responseSize = r_payloadSize s,
        g_metas = map snd (getLoop s (unat (getNumResponses mx mb (getStartIdx c st) s)) 0
                   ((r_headIdx s + r_maxEntries s - r_count s + getStartIdx c st) mod r_maxEntries s)
                   (if r_nextSeq s > r_count s
                        then r_nextSeq s - r_count s + getStartIdx c st else getStartIdx c st)),
        g_store = (if c then s\<lparr>r_count := r_count s - getNumResponses mx mb (getStartIdx c st) s\<rparr> else s)\<rparr>)"
proof -
  define S where "S = getStartIdx c st"
  show ?thesis
    unfolding get_def getNumResponses_def Let_def S_def [symmetric]
    by simp
qed

lemma get_some:
  assumes "getNumResponses mx mb (getStartIdx c st) s \<noteq> 0"
  shows "get rs mx c st mb s =
       \<lparr>g_numResponses = getNumResponses mx mb (getStartIdx c st) s,
        g_data = concat (map fst (getLoop s (unat (getNumResponses mx mb (getStartIdx c st) s)) 0
                   ((r_headIdx s + r_maxEntries s - r_count s + getStartIdx c st) mod r_maxEntries s)
                   (if r_nextSeq s > r_count s
                        then r_nextSeq s - r_count s + getStartIdx c st else getStartIdx c st))),
        g_responseSize = r_payloadSize s,
        g_metas = map snd (getLoop s (unat (getNumResponses mx mb (getStartIdx c st) s)) 0
                   ((r_headIdx s + r_maxEntries s - r_count s + getStartIdx c st) mod r_maxEntries s)
                   (if r_nextSeq s > r_count s
                        then r_nextSeq s - r_count s + getStartIdx c st else getStartIdx c st)),
        g_store = (if c then s\<lparr>r_count := r_count s - getNumResponses mx mb (getStartIdx c st) s\<rparr> else s)\<rparr>"
  using assms by (subst get_alt) simp

lemma get_numResponses_eq:
  "g_numResponses (get rs mx c st mb s) = getNumResponses mx mb (getStartIdx c st) s"
proof (cases "getNumResponses mx mb (getStartIdx c st) s = 0")
  case True
  then show ?thesis by (subst get_alt) (simp add: getNothing_def)
next
  case False
  then show ?thesis by (simp add: get_some)
qed

lemma get_store_eq:
  "g_store (get rs mx c st mb s) =
     (if c then s\<lparr>r_count := r_count s - getNumResponses mx mb (getStartIdx c st) s\<rparr> else s)"
proof (cases "getNumResponses mx mb (getStartIdx c st) s = 0")
  case True
  have l: "g_store (get rs mx c st mb s) = s"
    using True by (subst get_alt) (simp add: getNothing_def)
  show ?thesis unfolding l True by simp
next
  case False
  then show ?thesis by (simp add: get_some)
qed



section \<open>OfflineDataStore: counters\<close>

text \<open>
  Claim C9.  A \<^verbatim>\<open>put\<close> on an unconfigured store, or with a payload whose length differs
  from \<^verbatim>\<open>_payloadSize\<close>, returns false and leaves the whole store as it was: every
  field, the stored payloads and adjusted timestamps included.
\<close>

theorem C9_put_rejected_unchanged:
  "\<not> isConfigured s \<or> length d \<noteq> unat (r_payloadSize s) \<Longrightarrow> put t sq d s = (False, s)"
  by (auto simp: put_def)

theorem C9_put_rejected_unchanged_witness:
  "length [1, 2, 3 :: u8] \<noteq> unat (r_payloadSize (init 3 2 2 1000 newStore))
   \<and> put 5 7 [1, 2, 3] (init 3 2 2 1000 newStore) = (False, init 3 2 2 1000 newStore)"
proof -
  have h: "length [1, 2, 3 :: u8] \<noteq> unat (r_payloadSize (init 3 2 2 1000 newStore))"
    by (simp add: init_def)
  then have "\<not> isConfigured (init 3 2 2 1000 newStore)
      \<or> length [1, 2, 3 :: u8] \<noteq> unat (r_payloadSize (init 3 2 2 1000 newStore))" ..
  from C9_put_rejected_unchanged [OF this] h show ?thesis by blast
qed





lemma length_getLoop: "length (getLoop s n i tidx sq) = n"
  by (induction n arbitrary: i tidx) simp_all

lemma word_sub_le_self: "(n::u32) \<le> a \<Longrightarrow> a - n \<le> a"
  by unat_arith

lemma getNum_le_count: "getNumResponses mx mb S s \<le> r_count s"
proof (cases "getNumResponses mx mb S s = 0")
  case True
  then show ?thesis by simp
next
  case False
  have lt: "\<not> r_count s \<le> S" by (rule getNum_nonzero_conds(3) [OF False])
  have "getNumResponses mx mb S s \<le> r_count s - S" by (rule getNum_le_avail)
  then show ?thesis using lt by unat_arith
qed

lemma get_store_fields:
  "r_count (g_store (get rs mx c st mb s)) =
     (if c then r_count s - g_numResponses (get rs mx c st mb s) else r_count s)"
  "r_maxEntries (g_store (get rs mx c st mb s)) = r_maxEntries s"
  "r_headIdx (g_store (get rs mx c st mb s)) = r_headIdx s"
  "r_payloadSize (g_store (get rs mx c st mb s)) = r_payloadSize s"
  "r_nextSeq (g_store (get rs mx c st mb s)) = r_nextSeq s"
  by (simp_all add: get_store_eq get_numResponses_eq)










section \<open>OfflineDataStore: sequence numbers\<close>

lemma seqInv_new: "seqInv newStore"
  by (simp add: seqInv_def newStore_def)

lemma seqInv_init: "seqInv (init m p tb res s)"
  by (simp add: seqInv_def init_def)

lemma seqInv_clear: "seqInv (clear s)"
  by (simp add: seqInv_def clear_def)

lemma word_succ_bound:
  "(c::u32) \<le> n \<Longrightarrow> n \<le> sq \<Longrightarrow> sq \<noteq> - 1 \<Longrightarrow> c + 1 \<le> sq + 1 \<and> c \<le> sq + 1"
proof -
  assume a: "c \<le> n" "n \<le> sq" "sq \<noteq> - 1"
  have "\<not> sq + 1 \<le> sq" using a(3) by (simp add: inc_less_eq_self_iff_eq)
  then have "sq < sq + 1" by simp
  moreover have "c \<le> sq" using a by simp
  ultimately have lt: "c < sq + 1" by simp
  then show ?thesis by (simp add: inc_le)
qed

lemma seqInv_put:
  assumes "seqInv s" and "fst (put t sq d s) \<longrightarrow> r_nextSeq s \<le> sq \<and> sq \<noteq> - 1"
  shows "seqInv (snd (put t sq d s))"
proof (cases "\<not> isConfigured s \<or> length d \<noteq> unat (r_payloadSize s)")
  case True
  then show ?thesis using assms(1) by (simp add: put_def)
next
  case False
  then have acc: "fst (put t sq d s)" by (simp add: put_def Let_def)
  then have b: "r_nextSeq s \<le> sq" "sq \<noteq> - 1" using assms(2) by simp_all
  have c: "r_count s \<le> r_nextSeq s" using assms(1) by (simp add: seqInv_def)
  from word_succ_bound [OF c b] show ?thesis
    using False unfolding seqInv_def put_def Let_def isConfigured_def by simp
qed

lemma seqInv_get: "seqInv s \<Longrightarrow> seqInv (g_store (get rs mx c st mb s))"
proof -
  assume inv: "seqInv s"
  let ?n = "g_numResponses (get rs mx c st mb s)"
  have le: "?n \<le> r_count s" by (simp add: get_numResponses_eq getNum_le_count)
  have sub: "r_count s - ?n \<le> r_count s" by (rule word_sub_le_self [OF le])
  have z: "r_count s = 0 \<Longrightarrow> r_count s - ?n = 0" using le by simp
  have cfg: "isConfigured (g_store (get rs mx c st mb s)) = isConfigured s"
    by (simp add: isConfigured_def get_store_fields)
  show ?thesis
    using inv sub z unfolding seqInv_def cfg
    by (auto simp: get_store_fields)
qed

lemma seqInv_consume: "seqInv s \<Longrightarrow> seqInv (snd (consume n s))"
proof -
  assume inv: "seqInv s"
  let ?k = "(if n > r_count s then r_count s else n)"
  have le: "?k \<le> r_count s" by auto
  have sub: "r_count s - ?k \<le> r_count s" by (rule word_sub_le_self [OF le])
  show ?thesis
    using inv sub unfolding seqInv_def consume_def
    by (auto simp: isConfigured_def)
qed

lemma seqInv_runOps: "seqInv s \<Longrightarrow> seqsAscend ops s \<Longrightarrow> seqInv (runOps ops s)"
proof (induction ops arbitrary: s)
  case Nil
  then show ?case by (simp add: runOps_def)
next
  case (Cons op ops)
  have step: "seqInv (applyOp op s)"
    using Cons.prems
    by (cases op) (simp_all add: seqInv_init seqInv_put seqInv_get seqInv_consume seqInv_clear)
  have rest: "seqsAscend ops (applyOp op s)"
    using Cons.prems(2) by (cases op) simp_all
  have "runOps (op # ops) s = runOps ops (applyOp op s)" by (simp add: runOps_def)
  then show ?case using Cons.IH [OF step rest] by simp
qed

lemma get_first_seq:
  assumes "r_count s \<le> r_nextSeq s" and "g_numResponses (get rs mx c st mb s) \<noteq> 0"
  shows "seq (hd (g_metas (get rs mx c st mb s)))
          = r_nextSeq s - r_count s + getStartIdx c st"
proof -
  have nz: "getNumResponses mx mb (getStartIdx c st) s \<noteq> 0"
    using assms(2) by (simp add: get_numResponses_eq)
  then have n: "unat (getNumResponses mx mb (getStartIdx c st) s) \<noteq> 0"
    by (simp add: unat_eq_zero)
  have hd: "seq (hd (map snd (getLoop s n 0 tidx q))) = q" if "n \<noteq> 0" for n tidx q
    using that by (cases n) (simp_all add: getEntry_def Let_def)
  have sq: "(if r_nextSeq s > r_count s
             then r_nextSeq s - r_count s + getStartIdx c st else getStartIdx c st)
            = r_nextSeq s - r_count s + getStartIdx c st"
    using assms(1) by (auto simp: not_less)
  show ?thesis
    unfolding get_some [OF nz] sq by (simp add: hd [OF n])
qed

text \<open>
  Claim C8, amended.  In every state reached by \<^verbatim>\<open>init\<close>, \<^verbatim>\<open>put\<close>, \<^verbatim>\<open>get\<close>, \<^verbatim>\<open>consume\<close> and
  \<^verbatim>\<open>clear\<close> calls in which every accepted \<^verbatim>\<open>put\<close> carries a sequence number that is
  not below the store's \<^verbatim>\<open>_nextSeq\<close> (and is not \<open>2^32 - 1\<close>): \<open>nextSeq \<ge> count\<close>, the
  \<^verbatim>\<open>firstSeq\<close> of \<^verbatim>\<open>getStats\<close> is \<open>nextSeq - count\<close>, and the first sequence number
  returned by a non-empty \<^verbatim>\<open>get\<close> is \<open>nextSeq - count\<close> plus the start index.
\<close>

theorem C8_first_seq_when_seqs_ascend:
  assumes "seqsAscend ops newStore"
  shows "r_count (runOps ops newStore) \<le> r_nextSeq (runOps ops newStore)
    \<and> firstSeq (getStats (runOps ops newStore))
        = r_nextSeq (runOps ops newStore) - r_count (runOps ops newStore)
    \<and> (g_numResponses (get rs mx c st mb (runOps ops newStore)) \<noteq> 0 \<longrightarrow>
         seq (hd (g_metas (get rs mx c st mb (runOps ops newStore))))
           = r_nextSeq (runOps ops newStore) - r_count (runOps ops newStore)
             + getStartIdx c st)"
proof -
  let ?s = "runOps ops newStore"
  have inv: "seqInv ?s" by (rule seqInv_runOps [OF seqInv_new assms])
  then have le: "r_count ?s \<le> r_nextSeq ?s" by (simp add: seqInv_def)
  have st: "firstSeq (getStats ?s) = r_nextSeq ?s - r_count ?s"
    using inv unfolding seqInv_def getStats_def defaultStats_def
    by (auto simp: not_less)
  show ?thesis using le st get_first_seq [OF le] by blast
qed

text \<open>
  Claim C8 as stated (every reachable state) fails: \<^verbatim>\<open>put\<close> stores \<open>seq + 1\<close> for whatever
  \<open>seq\<close> the caller passes.  Two accepted puts with \<open>seq = 0\<close> leave \<open>nextSeq = 1\<close> below
  \<open>count = 2\<close>.
\<close>

theorem C8_nextSeq_below_count_counterexample:
  "r_nextSeq (runOps [OpInit 3 2 2 1000, OpPut 1000000 0 [0, 1], OpPut 1001000 0 [0, 2]] newStore)
     < r_count (runOps [OpInit 3 2 2 1000, OpPut 1000000 0 [0, 1], OpPut 1001000 0 [0, 2]] newStore)"
  by (simp add: runOps_def init_def put_def isConfigured_def newStore_def Let_def)


theorem C8_first_seq_when_seqs_ascend_witness:
  "seqsAscend [OpInit 3 2 2 1000, OpPut 1000000 10 [0, 10], OpPut 1001000 11 [0, 11]] newStore
   \<and> g_numResponses (get 0 0 False 0 0
         (runOps [OpInit 3 2 2 1000, OpPut 1000000 10 [0, 10], OpPut 1001000 11 [0, 11]] newStore)) \<noteq> 0
   \<and> seq (hd (g_metas (get 0 0 False 0 0
         (runOps [OpInit 3 2 2 1000, OpPut 1000000 10 [0, 10], OpPut 1001000 11 [0, 11]] newStore))))
       = r_nextSeq (runOps [OpInit 3 2 2 1000, OpPut 1000000 10 [0, 10], OpPut 1001000 11 [0, 11]] newStore)
         - r_count (runOps [OpInit 3 2 2 1000, OpPut 1000000 10 [0, 10], OpPut 1001000 11 [0, 11]] newStore)
         + getStartIdx False 0"
proof -
  have h: "seqsAscend [OpInit 3 2 2 1000, OpPut 1000000 10 [0, 10], OpPut 1001000 11 [0, 11]] newStore"
    by code_simp
  have n: "g_numResponses (get 0 0 False 0 0
         (runOps [OpInit 3 2 2 1000, OpPut 1000000 10 [0, 10], OpPut 1001000 11 [0, 11]] newStore)) \<noteq> 0"
    by code_simp
  from C8_first_seq_when_seqs_ascend [OF h, of 0 0 False 0 0] h n show ?thesis by blast
qed


section \<open>OfflineDataStore: the ring as a list of slots\<close>

lemma memWrite_length: "length (memWrite buf off src) = length buf"
  by (simp add: memWrite_def)

lemma slot_bound:
  "(i::nat) < m \<Longrightarrow> i * p + p \<le> m * p"
proof -
  assume "i < m"
  then have "Suc i \<le> m" by simp
  then have "Suc i * p \<le> m * p" by (rule mult_le_mono1)
  then show ?thesis by (simp add: add.commute)
qed

lemma memRead_memWrite_same:
  assumes "off + length src \<le> length buf"
  shows "memRead (memWrite buf off src) off (length src) = src"
  using assms by (simp add: memRead_def memWrite_def)

lemma memRead_memWrite_other:
  assumes "length src = p" and "i \<noteq> h" and "h * p + p \<le> length buf"
  shows "memRead (memWrite buf (h * p) src) (i * p) p = memRead buf (i * p) p"
proof (cases "i < h")
  case True
  then have le: "i * p + p \<le> h * p" by (rule slot_bound)
  have "take p (drop (i * p) (take (h * p) buf @ src @ drop (h * p + p) buf))
        = take p (drop (i * p) (take (h * p) buf))"
    using le assms(3) by simp
  also have "\<dots> = take p (drop (i * p) buf)"
    using le by (simp add: drop_take min_def)
  finally show ?thesis using assms by (simp add: memRead_def memWrite_def)
next
  case False
  then have "h < i" using assms(2) by simp
  then have le: "h * p + p \<le> i * p" by (rule slot_bound)
  then obtain e where e: "i * p = h * p + p + e" by (metis le_Suc_ex)
  have "drop (i * p) (take (h * p) buf @ src @ drop (h * p + p) buf)
        = drop e (drop (h * p + p) buf)"
    using assms(1,3) unfolding e by simp
  also have "\<dots> = drop (i * p) buf" unfolding e by (simp add: add.commute)
  finally show ?thesis using assms by (simp add: memRead_def memWrite_def)
qed


lemma ringWf_configured: "ringWf s \<Longrightarrow> isConfigured s"
  by (simp add: ringWf_def isConfigured_def word_less_nat_alt)

lemma ringWf_arith:
  assumes "ringWf s"
  shows "unat (r_maxEntries s) * unat (r_payloadSize s) < 2 ^ 32"
    and "unat (r_maxEntries s) + unat (r_maxEntries s) < 2 ^ 32"
proof -
  let ?M = "unat (r_maxEntries s)" and ?P = "unat (r_payloadSize s)"
  have b: "?M * (?P + 4) < 2 ^ 32" and p: "0 < ?P" using assms by (simp_all add: ringWf_def)
  have "?M * ?P \<le> ?M * (?P + 4)" by simp
  then show "?M * ?P < 2 ^ 32" using b by linarith
  have "?M * 2 \<le> ?M * (?P + 4)" by (rule mult_le_mono2) simp
  then show "?M + ?M < 2 ^ 32" using b by linarith
qed

lemma unat_slot_offset:
  assumes "ringWf s" and "unat idx < unat (r_maxEntries s)"
  shows "unat (idx * r_payloadSize s) = unat idx * unat (r_payloadSize s)"
proof -
  have "unat idx * unat (r_payloadSize s) \<le> unat (r_maxEntries s) * unat (r_payloadSize s)"
    using assms(2) by (simp add: mult_le_mono1)
  then have "unat idx * unat (r_payloadSize s) < 2 ^ 32"
    using ringWf_arith(1) [OF assms(1)] by linarith
  then show ?thesis by (simp add: unat_mult_lem [THEN iffD1])
qed

lemma unat_head_succ:
  assumes "ringWf s"
  shows "unat ((r_headIdx s + 1) mod r_maxEntries s)
         = (if unat (r_headIdx s) + 1 < unat (r_maxEntries s) then unat (r_headIdx s) + 1 else 0)"
proof -
  let ?M = "unat (r_maxEntries s)" and ?H = "unat (r_headIdx s)"
  have h: "?H < ?M" using assms by (simp add: ringWf_def)
  have m: "?M + ?M < 2 ^ 32" by (rule ringWf_arith(2) [OF assms])
  have "?H + 1 < 2 ^ 32" using h m by linarith
  then have h1: "unat (r_headIdx s + 1) = ?H + 1" by (simp add: unat_word_ariths)
  have "unat ((r_headIdx s + 1) mod r_maxEntries s) = (?H + 1) mod ?M"
    by (simp add: unat_mod h1)
  also have "\<dots> = (if ?H + 1 < ?M then ?H + 1 else 0)"
  proof (cases "?H + 1 < ?M")
    case True
    then show ?thesis by simp
  next
    case False
    then have "?H + 1 = ?M" using h by linarith
    then show ?thesis by simp
  qed
  finally show ?thesis .
qed

lemma put_accepted:
  assumes "isConfigured s" and "length d = unat (r_payloadSize s)"
  shows "fst (put t sq d s)"
    and "r_maxEntries (snd (put t sq d s)) = r_maxEntries s"
    and "r_payloadSize (snd (put t sq d s)) = r_payloadSize s"
    and "r_timestampBytes (snd (put t sq d s)) = r_timestampBytes s"
    and "r_timestampResolutionUs (snd (put t sq d s)) = r_timestampResolutionUs s"
    and "r_timestampWrapMs (snd (put t sq d s)) = r_timestampWrapMs s"
    and "r_headIdx (snd (put t sq d s)) = (r_headIdx s + 1) mod r_maxEntries s"
    and "r_count (snd (put t sq d s)) = (if r_count s < r_maxEntries s then r_count s + 1 else r_count s)"
    and "r_drops (snd (put t sq d s)) = (if r_count s < r_maxEntries s then r_drops s else r_drops s + 1)"
    and "r_nextSeq (snd (put t sq d s)) = sq + 1"
    and "r_ringBuffer (snd (put t sq d s))
          = memWrite (r_ringBuffer s) (unat (r_headIdx s * r_payloadSize s)) d"
    and "length (r_adjTimestampMs (snd (put t sq d s))) = length (r_adjTimestampMs s)"
    and "i \<noteq> unat (r_headIdx s) \<Longrightarrow>
           r_adjTimestampMs (snd (put t sq d s)) ! i = r_adjTimestampMs s ! i"
    and "r_lastTimestampValid (snd (put t sq d s))"
    and "r_lastTimestampVal (snd (put t sq d s)) = extractTs (r_timestampBytes s) d"
  using assms by (simp_all add: put_def Let_def)


lemma unat_count_succ:
  assumes "ringWf s"
  shows "unat (if r_count s < r_maxEntries s then r_count s + 1 else r_count s)
         = (if unat (r_count s) < unat (r_maxEntries s) then unat (r_count s) + 1
            else unat (r_count s))"
proof -
  have m: "unat (r_maxEntries s) + unat (r_maxEntries s) < 2 ^ 32"
    by (rule ringWf_arith(2) [OF assms])
  have c: "unat (r_count s) \<le> unat (r_maxEntries s)" using assms by (simp add: ringWf_def)
  have "unat (r_count s) + 1 < 2 ^ 32" using m c assms by (simp add: ringWf_def)
  then have "unat (r_count s + 1) = unat (r_count s) + 1" by (simp add: unat_word_ariths)
  then show ?thesis by (simp add: word_less_nat_alt)
qed

lemma ringWf_put:
  assumes "ringWf s" and "length d = unat (r_payloadSize s)"
  shows "ringWf (snd (put t sq d s))"
proof -
  note cfg = ringWf_configured [OF assms(1)]
  note f = put_accepted [OF cfg assms(2), where t = t and sq = sq]
  have h: "unat (r_headIdx (snd (put t sq d s))) < unat (r_maxEntries s)"
    using assms(1) unfolding f(7) unat_head_succ [OF assms(1)] by (simp add: ringWf_def)
  have c: "unat (r_count (snd (put t sq d s))) \<le> unat (r_maxEntries s)"
    using assms(1) unfolding f(8) unat_count_succ [OF assms(1)] by (simp add: ringWf_def)
  show ?thesis
    using assms(1) h c unfolding ringWf_def f(2) f(3) f(11) f(12)
    by (simp add: memWrite_length)
qed

lemma slotEntry_put:
  assumes "ringWf s" and "length d = unat (r_payloadSize s)" and "i < unat (r_maxEntries s)"
  shows "slotEntry (snd (put t sq d s)) i =
     (if i = unat (r_headIdx s)
      then (d, r_adjTimestampMs (snd (put t sq d s)) ! unat (r_headIdx s))
      else slotEntry s i)"
proof -
  note cfg = ringWf_configured [OF assms(1)]
  note f = put_accepted [OF cfg assms(2), where t = t and sq = sq]
  let ?H = "unat (r_headIdx s)" and ?P = "unat (r_payloadSize s)"
  have h: "?H < unat (r_maxEntries s)" using assms(1) by (simp add: ringWf_def)
  have off: "unat (r_headIdx s * r_payloadSize s) = ?H * ?P"
    by (rule unat_slot_offset [OF assms(1) h])
  have fit: "?H * ?P + ?P \<le> length (r_ringBuffer s)"
    using slot_bound [OF h, of ?P] assms(1) by (simp add: ringWf_def)
  show ?thesis
  proof (cases "i = ?H")
    case True
    have "memRead (memWrite (r_ringBuffer s) (?H * ?P) d) (?H * ?P) (length d) = d"
      by (rule memRead_memWrite_same) (use fit assms(2) in simp)
    then show ?thesis using True by (simp add: slotEntry_def f(3) f(11) off assms(2))
  next
    case False
    have "memRead (memWrite (r_ringBuffer s) (?H * ?P) d) (i * ?P) ?P
          = memRead (r_ringBuffer s) (i * ?P) ?P"
      by (rule memRead_memWrite_other [OF assms(2) False fit])
    then show ?thesis using False by (simp add: slotEntry_def f(3) f(11) f(13) off)
  qed
qed

lemma physIdx_explicit:
  assumes "unat (r_headIdx s) < unat (r_maxEntries s)"
    and "unat (r_count s) \<le> unat (r_maxEntries s)" and "k < unat (r_count s)"
  shows "physIdx s k =
     (if unat (r_headIdx s) + k < unat (r_count s)
      then unat (r_headIdx s) + unat (r_maxEntries s) - unat (r_count s) + k
      else unat (r_headIdx s) + k - unat (r_count s))"
proof -
  let ?H = "unat (r_headIdx s)" and ?M = "unat (r_maxEntries s)" and ?C = "unat (r_count s)"
  show ?thesis
  proof (cases "?H + k < ?C")
    case True
    then have "?H + ?M - ?C + k < ?M" using assms by linarith
    then show ?thesis using True by (simp add: physIdx_def)
  next
    case False
    then have e: "?H + ?M - ?C + k = (?H + k - ?C) + ?M" using assms by linarith
    have lt: "?H + k - ?C < ?M" using assms by linarith
    have "physIdx s k = ((?H + k - ?C) + ?M) mod ?M"
      unfolding physIdx_def by (simp only: e)
    also have "\<dots> = (?H + k - ?C) mod ?M" by simp
    also have "\<dots> = ?H + k - ?C" using lt by simp
    finally show ?thesis using False by simp
  qed
qed

lemma physIdx_lt:
  "0 < unat (r_maxEntries s) \<Longrightarrow> physIdx s k < unat (r_maxEntries s)"
  by (simp add: physIdx_def)


lemma mod_twice_range:
  "(x::nat) < m + m \<Longrightarrow> x mod m = (if x < m then x else x - m)"
  by (simp add: mod_if)

lemma ph_notfull:
  assumes "H < M" and "C < M" and "k < C"
  shows "((if H + 1 < M then H + 1 else 0) + M - (C + 1) + k) mod M = (H + M - C + k) mod (M::nat)"
    and "(H + M - C + k) mod M \<noteq> H"
proof -
  have r: "H + M - C + k < M + M" using assms by linarith
  show "(H + M - C + k) mod M \<noteq> H"
    unfolding mod_twice_range [OF r] using assms by (auto split: if_splits)
  show "((if H + 1 < M then H + 1 else 0) + M - (C + 1) + k) mod M = (H + M - C + k) mod M"
  proof (cases "H + 1 < M")
    case True
    then have "(H + 1) + M - (C + 1) + k = H + M - C + k" using assms by linarith
    then show ?thesis using True by simp
  next
    case False
    then have h: "H + 1 = M" using assms by linarith
    have l: "0 + M - (C + 1) + k < M" using assms by linarith
    have "H + M - C + k = (0 + M - (C + 1) + k) + M" using h assms by linarith
    then have "(H + M - C + k) mod M = (0 + M - (C + 1) + k) mod M"
      by (simp only: mod_add_self2)
    then show ?thesis using False by (simp only: if_False)
  qed
qed

lemma ph_notfull_last:
  assumes "H < M" and "C < M"
  shows "((if H + 1 < M then H + 1 else 0) + M - (C + 1) + C) mod M = (H::nat)"
proof (cases "H + 1 < M")
  case True
  then have "(H + 1) + M - (C + 1) + C = H + M" using assms by linarith
  then show ?thesis using True assms by simp
next
  case False
  then have h: "H + 1 = M" using assms by linarith
  have "0 + M - (C + 1) + C = H" using h assms by linarith
  then show ?thesis using False assms by simp
qed

lemma ph_full:
  assumes "H < M" and "k + 1 < M"
  shows "((if H + 1 < M then H + 1 else 0) + M - M + k) mod M = (H + M - M + (k + 1)) mod (M::nat)"
    and "(H + M - M + (k + 1)) mod M \<noteq> H"
proof -
  have r: "H + M - M + (k + 1) < M + M" using assms by linarith
  show "(H + M - M + (k + 1)) mod M \<noteq> H"
    unfolding mod_twice_range [OF r] using assms by (auto split: if_splits)
  show "((if H + 1 < M then H + 1 else 0) + M - M + k) mod M = (H + M - M + (k + 1)) mod M"
  proof (cases "H + 1 < M")
    case True
    then show ?thesis by simp
  next
    case False
    then have h: "H + 1 = M" using assms by linarith
    have "H + M - M + (k + 1) = k + M" using h by linarith
    then have "(H + M - M + (k + 1)) mod M = k mod M"
      by (simp only: mod_add_self2)
    moreover have "0 + M - M + k = k" by simp
    ultimately show ?thesis using False by (simp only: if_False)
  qed
qed

lemma ph_full_last:
  assumes "H < M"
  shows "((if H + 1 < M then H + 1 else 0) + M - M + (M - 1)) mod M = (H::nat)"
proof (cases "H + 1 < M")
  case True
  then have "(H + 1) + M - M + (M - 1) = H + M" using assms by linarith
  then show ?thesis using True assms by simp
next
  case False
  then have h: "H + 1 = M" using assms by linarith
  then show ?thesis using False assms by simp
qed


lemma tl_map_upt: "tl (map g [0..<Suc n]) = map (\<lambda>k. g (k + 1)) [0..<n]"
proof -
  have "[0..<Suc n] = 0 # map Suc [0..<n]"
    by (simp only: map_Suc_upt upt_conv_Cons [of 0 "Suc n"] zero_less_Suc)
  then have "tl (map g [0..<Suc n]) = map g (map Suc [0..<n])" by (simp only: list.map list.sel)
  then show ?thesis by (simp add: comp_def)
qed

lemma drop_map_upt: "drop n (map g [0..<c]) = map (\<lambda>k. g (k + n)) [0..<c - n]"
proof -
  have "map g [n..<c] = map (\<lambda>k. g (k + n)) [0..<c - n]"
    by (rule nth_equalityI) (simp_all add: add.commute)
  then show ?thesis by (simp add: drop_map)
qed

lemma take_map_upt: "n \<le> c \<Longrightarrow> take n (map g [0..<c]) = map g [0..<n]"
  by (simp add: take_map)

lemma storedSlots_put:
  assumes "ringWf s" and "length d = unat (r_payloadSize s)"
  shows "storedSlots (snd (put t sq d s)) =
     (if unat (r_count s) < unat (r_maxEntries s) then storedSlots s else tl (storedSlots s))
     @ [(d, r_adjTimestampMs (snd (put t sq d s)) ! unat (r_headIdx s))]"
proof -
  let ?s' = "snd (put t sq d s)"
  let ?H = "unat (r_headIdx s)" and ?M = "unat (r_maxEntries s)" and ?C = "unat (r_count s)"
  let ?new = "(d, r_adjTimestampMs ?s' ! ?H)"
  note cfg = ringWf_configured [OF assms(1)]
  note f = put_accepted [OF cfg assms(2), where t = t and sq = sq]
  have h: "?H < ?M" and c: "?C \<le> ?M" and m: "0 < ?M" using assms(1) by (simp_all add: ringWf_def)
  have H': "unat (r_headIdx ?s') = (if ?H + 1 < ?M then ?H + 1 else 0)"
    unfolding f(7) by (rule unat_head_succ [OF assms(1)])
  have C': "unat (r_count ?s') = (if ?C < ?M then ?C + 1 else ?C)"
    unfolding f(8) by (rule unat_count_succ [OF assms(1)])
  have ph': "physIdx ?s' k = ((if ?H + 1 < ?M then ?H + 1 else 0) + ?M - unat (r_count ?s') + k) mod ?M" for k
    by (simp only: physIdx_def H' f(2))
  have slot: "slotEntry ?s' i = (if i = ?H then ?new else slotEntry s i)" if "i < ?M" for i
    by (rule slotEntry_put [OF assms that])
  show ?thesis
  proof (cases "?C < ?M")
    case True
    have C1: "unat (r_count ?s') = ?C + 1" using True C' by simp
    have old: "slotEntry ?s' (physIdx ?s' k) = slotEntry s (physIdx s k)" if "k < ?C" for k
    proof -
      have "physIdx ?s' k = ((if ?H + 1 < ?M then ?H + 1 else 0) + ?M - (?C + 1) + k) mod ?M"
        by (simp only: ph' C1)
      also have "\<dots> = (?H + ?M - ?C + k) mod ?M"
        by (rule ph_notfull(1) [OF h True that])
      also have "\<dots> = physIdx s k" by (simp only: physIdx_def)
      finally have e: "physIdx ?s' k = physIdx s k" .
      have ne: "physIdx s k \<noteq> ?H"
        unfolding physIdx_def by (rule ph_notfull(2) [OF h True that])
      show ?thesis unfolding e using slot [OF physIdx_lt [OF m]] ne by simp
    qed
    have last: "slotEntry ?s' (physIdx ?s' ?C) = ?new"
    proof -
      have "physIdx ?s' ?C = ((if ?H + 1 < ?M then ?H + 1 else 0) + ?M - (?C + 1) + ?C) mod ?M"
        by (simp only: ph' C1)
      also have "\<dots> = ?H" by (rule ph_notfull_last [OF h True])
      finally have e: "physIdx ?s' ?C = ?H" .
      show ?thesis unfolding e using slot [OF h] by simp
    qed
    have "storedSlots ?s' = map (\<lambda>k. slotEntry ?s' (physIdx ?s' k)) [0..<?C] @ [?new]"
      unfolding storedSlots_def C1 using last by simp
    also have "map (\<lambda>k. slotEntry ?s' (physIdx ?s' k)) [0..<?C] = storedSlots s"
      unfolding storedSlots_def using old by simp
    finally show ?thesis using True by simp
  next
    case False
    then have CM: "?C = ?M" using c by simp
    have C1: "unat (r_count ?s') = ?M" using False C' CM by simp
    have old: "slotEntry ?s' (physIdx ?s' k) = slotEntry s (physIdx s (k + 1))" if "k + 1 < ?M" for k
    proof -
      have "physIdx ?s' k = ((if ?H + 1 < ?M then ?H + 1 else 0) + ?M - ?M + k) mod ?M"
        by (simp only: ph' C1)
      also have "\<dots> = (?H + ?M - ?M + (k + 1)) mod ?M"
        by (rule ph_full(1) [OF h that])
      also have "\<dots> = physIdx s (k + 1)" by (simp only: physIdx_def CM)
      finally have e: "physIdx ?s' k = physIdx s (k + 1)" .
      have "(?H + ?M - ?M + (k + 1)) mod ?M \<noteq> ?H" by (rule ph_full(2) [OF h that])
      then have ne: "physIdx s (k + 1) \<noteq> ?H" unfolding physIdx_def CM .
      show ?thesis unfolding e using slot [OF physIdx_lt [OF m]] ne by simp
    qed
    have last: "slotEntry ?s' (physIdx ?s' (?M - 1)) = ?new"
    proof -
      have "physIdx ?s' (?M - 1) = ((if ?H + 1 < ?M then ?H + 1 else 0) + ?M - ?M + (?M - 1)) mod ?M"
        by (simp only: ph' C1)
      also have "\<dots> = ?H" by (rule ph_full_last [OF h])
      finally have e: "physIdx ?s' (?M - 1) = ?H" .
      show ?thesis unfolding e using slot [OF h] by simp
    qed
    obtain n where n: "?M = Suc n" using m by (cases ?M) simp_all
    have last': "slotEntry ?s' (physIdx ?s' n) = ?new" using last n by simp
    have "storedSlots ?s' = map (\<lambda>k. slotEntry ?s' (physIdx ?s' k)) [0..<n] @ [?new]"
      unfolding storedSlots_def C1 n using last' by simp
    also have "map (\<lambda>k. slotEntry ?s' (physIdx ?s' k)) [0..<n]
               = map (\<lambda>k. slotEntry s (physIdx s (k + 1))) [0..<n]"
      using old n by simp
    also have "\<dots> = tl (storedSlots s)"
      unfolding storedSlots_def CM n by (rule tl_map_upt [symmetric])
    finally show ?thesis using False by simp
  qed
qed


section \<open>OfflineDataStore: what get returns\<close>

lemma getEntry_slot:
  assumes "ringWf s" and "unat idx < unat (r_maxEntries s)"
  shows "getEntry s idx sq
         = (fst (slotEntry s (unat idx)), slotMeta s (slotEntry s (unat idx)) sq)"
  unfolding getEntry_def slotEntry_def slotMeta_def Let_def
  by (simp add: unat_slot_offset [OF assms])

lemma unat_idx_succ:
  assumes "ringWf s" and "unat idx < unat (r_maxEntries s)"
  shows "unat ((idx + 1) mod r_maxEntries s) = (unat idx + 1) mod unat (r_maxEntries s)"
proof -
  have m: "unat (r_maxEntries s) + unat (r_maxEntries s) < 2 ^ 32"
    by (rule ringWf_arith(2) [OF assms(1)])
  have "unat idx + 1 < 2 ^ 32" using m assms(2) by linarith
  then have "unat (idx + 1) = unat idx + 1" by (simp add: unat_word_ariths)
  then show ?thesis by (simp add: unat_mod)
qed

lemma getLoop_slots:
  assumes "ringWf s" and "unat tidx < unat (r_maxEntries s)"
  shows "getLoop s n i tidx sq =
     map (\<lambda>j. (fst (slotEntry s ((unat tidx + j) mod unat (r_maxEntries s))),
                slotMeta s (slotEntry s ((unat tidx + j) mod unat (r_maxEntries s)))
                  (sq + i + of_nat j))) [0..<n]"
  using assms(2)
proof (induction n arbitrary: i tidx)
  case 0
  then show ?case by simp
next
  case (Suc n)
  let ?M = "unat (r_maxEntries s)"
  let ?t' = "(tidx + 1) mod r_maxEntries s"
  have t': "unat ?t' = (unat tidx + 1) mod ?M" by (rule unat_idx_succ [OF assms(1) Suc.prems])
  have m: "0 < ?M" using assms(1) by (simp add: ringWf_def)
  have lt: "unat ?t' < ?M" unfolding t' using m by simp
  have idx: "(unat ?t' + j) mod ?M = (unat tidx + Suc j) mod ?M" for j
    unfolding t' by (simp add: mod_add_left_eq)
  have sq: "sq + (i + 1) + of_nat j = sq + i + of_nat (Suc j)" for j
    by simp
  have hd: "getEntry s tidx (sq + i) =
        (fst (slotEntry s ((unat tidx + 0) mod ?M)),
         slotMeta s (slotEntry s ((unat tidx + 0) mod ?M)) (sq + i + of_nat 0))"
    using Suc.prems by (simp add: getEntry_slot [OF assms(1)])
  show ?case
    unfolding getLoop.simps map_upt_Suc Suc.IH [OF lt] idx sq hd [symmetric] ..
qed

lemma unat_tailIdx:
  assumes "ringWf s" and "unat S < unat (r_count s)"
  shows "unat ((r_headIdx s + r_maxEntries s - r_count s + S) mod r_maxEntries s)
         = physIdx s (unat S)"
proof -
  let ?H = "unat (r_headIdx s)" and ?M = "unat (r_maxEntries s)" and ?C = "unat (r_count s)"
  have h: "?H < ?M" and c: "?C \<le> ?M" using assms(1) by (simp_all add: ringWf_def)
  have m: "?M + ?M < 2 ^ 32" by (rule ringWf_arith(2) [OF assms(1)])
  have hm: "unat (r_headIdx s + r_maxEntries s) = ?H + ?M"
    using h m by (simp add: unat_word_ariths)
  have le: "r_count s \<le> r_headIdx s + r_maxEntries s"
    using c by (simp add: word_le_nat_alt hm)
  have sub: "unat (r_headIdx s + r_maxEntries s - r_count s) = ?H + ?M - ?C"
    by (simp add: unat_sub [OF le] hm)
  have "?H + ?M - ?C + unat S < 2 ^ 32" using h c m assms(2) by linarith
  then have "unat (r_headIdx s + r_maxEntries s - r_count s + S) = ?H + ?M - ?C + unat S"
    by (simp add: unat_word_ariths sub)
  then show ?thesis by (simp add: unat_mod physIdx_def)
qed


lemma length_storedSlots: "length (storedSlots s) = unat (r_count s)"
  by (simp add: storedSlots_def)

lemma physIdx_add:
  "0 < unat (r_maxEntries s) \<Longrightarrow>
     (physIdx s a + j) mod unat (r_maxEntries s) = physIdx s (a + j)"
  unfolding physIdx_def by (simp add: mod_add_left_eq add.assoc)

lemma take_drop_map_nth:
  assumes "a + n \<le> length xs"
  shows "take n (drop a xs) = map (\<lambda>j. xs ! (a + j)) [0..<n]"
  by (rule nth_equalityI) (use assms in simp_all)

lemma getLoop_stored:
  assumes "ringWf s" and "unat S < unat (r_count s)" and "unat S + n \<le> unat (r_count s)"
  shows "getLoop s n 0 ((r_headIdx s + r_maxEntries s - r_count s + S) mod r_maxEntries s) sq
     = map (\<lambda>j. (fst (storedSlots s ! (unat S + j)),
                   slotMeta s (storedSlots s ! (unat S + j)) (sq + of_nat j))) [0..<n]"
proof -
  let ?t = "(r_headIdx s + r_maxEntries s - r_count s + S) mod r_maxEntries s"
  have m: "0 < unat (r_maxEntries s)" using assms(1) by (simp add: ringWf_def)
  have t: "unat ?t = physIdx s (unat S)" by (rule unat_tailIdx [OF assms(1,2)])
  have lt: "unat ?t < unat (r_maxEntries s)" unfolding t by (rule physIdx_lt [OF m])
  have nth: "slotEntry s ((unat ?t + j) mod unat (r_maxEntries s)) = storedSlots s ! (unat S + j)"
    if "j < n" for j
  proof -
    have "unat S + j < unat (r_count s)" using that assms(3) by linarith
    then show ?thesis
      unfolding t physIdx_add [OF m] by (simp add: storedSlots_def)
  qed
  show ?thesis
    unfolding getLoop_slots [OF assms(1) lt] using nth by simp
qed

lemma getNum_range:
  assumes "getNumResponses mx mb S s \<noteq> 0"
  shows "unat S < unat (r_count s)"
    and "unat S + unat (getNumResponses mx mb S s) \<le> unat (r_count s)"
proof -
  have lt: "\<not> r_count s \<le> S" by (rule getNum_nonzero_conds(3) [OF assms])
  then show a: "unat S < unat (r_count s)" by (simp add: word_le_nat_alt)
  have "getNumResponses mx mb S s \<le> r_count s - S" by (rule getNum_le_avail)
  then have "unat (getNumResponses mx mb S s) \<le> unat (r_count s - S)"
    by (simp add: word_le_nat_alt)
  moreover have "unat (r_count s - S) = unat (r_count s) - unat S"
    by (rule unat_sub) (use lt in simp)
  ultimately show "unat S + unat (getNumResponses mx mb S s) \<le> unat (r_count s)"
    using a by linarith
qed

lemma get_slots:
  assumes "ringWf s" and "getNumResponses mx mb (getStartIdx c st) s \<noteq> 0"
  shows "g_metas (get rs mx c st mb s) =
      map (\<lambda>j. slotMeta s (storedSlots s ! (unat (getStartIdx c st) + j))
             ((if r_nextSeq s > r_count s
               then r_nextSeq s - r_count s + getStartIdx c st else getStartIdx c st) + of_nat j))
        [0..<unat (getNumResponses mx mb (getStartIdx c st) s)]"
    and "g_data (get rs mx c st mb s) =
      concat (map fst (take (unat (getNumResponses mx mb (getStartIdx c st) s))
                 (drop (unat (getStartIdx c st)) (storedSlots s))))"
proof -
  note r = getNum_range [OF assms(2)]
  note l = getLoop_stored [OF assms(1) r]
  show "g_metas (get rs mx c st mb s) =
      map (\<lambda>j. slotMeta s (storedSlots s ! (unat (getStartIdx c st) + j))
             ((if r_nextSeq s > r_count s
               then r_nextSeq s - r_count s + getStartIdx c st else getStartIdx c st) + of_nat j))
        [0..<unat (getNumResponses mx mb (getStartIdx c st) s)]"
    unfolding get_some [OF assms(2)] by (simp add: l comp_def)
  have td: "take (unat (getNumResponses mx mb (getStartIdx c st) s))
                 (drop (unat (getStartIdx c st)) (storedSlots s))
        = map (\<lambda>j. storedSlots s ! (unat (getStartIdx c st) + j))
            [0..<unat (getNumResponses mx mb (getStartIdx c st) s)]"
    by (rule take_drop_map_nth) (use r in \<open>simp add: length_storedSlots\<close>)
  show "g_data (get rs mx c st mb s) =
      concat (map fst (take (unat (getNumResponses mx mb (getStartIdx c st) s))
                 (drop (unat (getStartIdx c st)) (storedSlots s))))"
    unfolding get_some [OF assms(2)] td by (simp add: l comp_def)
qed

lemma storedPayloads_slots:
  assumes "ringWf s"
  shows "storedPayloads s = map fst (storedSlots s)"
proof (cases "unat (r_count s) = 0")
  case True
  then show ?thesis by (simp add: storedPayloads_def storedSlots_def)
next
  case False
  then have a: "unat (0::u32) < unat (r_count s)" by simp
  have b: "unat (0::u32) + unat (r_count s) \<le> unat (r_count s)" by simp
  have "storedPayloads s = map (\<lambda>j. fst (storedSlots s ! j)) [0..<unat (r_count s)]"
    unfolding storedPayloads_def getLoop_stored [OF assms a b] by (simp add: comp_def)
  also have "\<dots> = map fst (storedSlots s)"
    by (rule nth_equalityI) (simp_all add: length_storedSlots)
  finally show ?thesis .
qed


section \<open>OfflineDataStore: drop-oldest\<close>

lemma ringWf_init:
  assumes "0 < unat m" and "0 < unat p" and "unat m * (unat p + 4) < 2 ^ 32"
  shows "ringWf (init m p tb res s)"
proof -
  have "unat m * unat p \<le> unat m * (unat p + 4)" by simp
  then have "unat m * unat p < 2 ^ 32" using assms(3) by linarith
  then have "unat (m * p) = unat m * unat p" by (simp add: unat_mult_lem [THEN iffD1])
  then show ?thesis using assms by (simp add: ringWf_def init_def)
qed

lemma put_drop_oldest:
  assumes "ringWf s" and "length d = unat (r_payloadSize s)"
  shows "fst (put t sq d s)
     \<and> (r_count s = r_maxEntries s \<longrightarrow>
          r_count (snd (put t sq d s)) = r_maxEntries s
        \<and> r_drops (snd (put t sq d s)) = r_drops s + 1
        \<and> storedPayloads (snd (put t sq d s)) = tl (storedPayloads s) @ [d])
     \<and> (r_count s < r_maxEntries s \<longrightarrow>
          r_count (snd (put t sq d s)) = r_count s + 1
        \<and> r_drops (snd (put t sq d s)) = r_drops s
        \<and> storedPayloads (snd (put t sq d s)) = storedPayloads s @ [d])"
proof -
  note cfg = ringWf_configured [OF assms(1)]
  note f = put_accepted [OF cfg assms(2), where t = t and sq = sq]
  note wf' = ringWf_put [OF assms, of t sq]
  have sp: "storedPayloads (snd (put t sq d s)) =
     (if unat (r_count s) < unat (r_maxEntries s)
      then storedPayloads s else tl (storedPayloads s)) @ [d]"
    unfolding storedPayloads_slots [OF wf'] storedPayloads_slots [OF assms(1)]
      storedSlots_put [OF assms]
    by (simp add: map_tl)
  show ?thesis
    using f(1) sp unfolding f(8) f(9)
    by (auto simp: word_less_nat_alt)
qed


lemma s2_scenario:
  "r_count (runOps s2ops newStore) = 3
   \<and> r_drops (runOps s2ops newStore) = 2
   \<and> firstSeq (getStats (runOps s2ops newStore)) = 12
   \<and> g_numResponses (get 0 0 True 0 0 (runOps s2ops newStore)) = 3
   \<and> map seq (g_metas (get 0 0 True 0 0 (runOps s2ops newStore))) = [12, 13, 14]
   \<and> g_data (get 0 0 True 0 0 (runOps s2ops newStore)) = [0, 12, 0, 13, 0, 14]"
  by code_simp

text \<open>
  Claim C2.  On a well-formed (configured) ring, a \<^verbatim>\<open>put\<close> of a payload of the configured
  size is accepted; when \<open>count = maxEntries\<close> it leaves the count, adds one to \<^verbatim>\<open>drops\<close>
  (a 32-bit counter), and the stored payloads become the old ones without the oldest,
  followed by the new one; when \<open>count < maxEntries\<close> it adds one to the count, leaves
  \<^verbatim>\<open>drops\<close>, and appends the new payload.  In scenario S2 the final state has
  \<open>count = 3\<close>, \<open>drops = 2\<close>, \<open>firstSeq = 12\<close>, and \<^verbatim>\<open>get\<close> without caps returns the three
  payloads put with sequence numbers 12, 13, 14, numbered 12, 13, 14.
\<close>

theorem C2_drop_oldest:
  "(\<forall>s t sq d. ringWf s \<and> length d = unat (r_payloadSize s) \<longrightarrow>
       fst (put t sq d s)
     \<and> (r_count s = r_maxEntries s \<longrightarrow>
          r_count (snd (put t sq d s)) = r_maxEntries s
        \<and> r_drops (snd (put t sq d s)) = r_drops s + 1
        \<and> storedPayloads (snd (put t sq d s)) = tl (storedPayloads s) @ [d])
     \<and> (r_count s < r_maxEntries s \<longrightarrow>
          r_count (snd (put t sq d s)) = r_count s + 1
        \<and> r_drops (snd (put t sq d s)) = r_drops s
        \<and> storedPayloads (snd (put t sq d s)) = storedPayloads s @ [d]))
   \<and> r_count (runOps s2ops newStore) = 3
   \<and> r_drops (runOps s2ops newStore) = 2
   \<and> firstSeq (getStats (runOps s2ops newStore)) = 12
   \<and> g_numResponses (get 0 0 True 0 0 (runOps s2ops newStore)) = 3
   \<and> map seq (g_metas (get 0 0 True 0 0 (runOps s2ops newStore))) = [12, 13, 14]
   \<and> g_data (get 0 0 True 0 0 (runOps s2ops newStore)) = [0, 12, 0, 13, 0, 14]"
proof -
  have g: "\<forall>s t sq d. ringWf s \<and> length d = unat (r_payloadSize s) \<longrightarrow>
       fst (put t sq d s)
     \<and> (r_count s = r_maxEntries s \<longrightarrow>
          r_count (snd (put t sq d s)) = r_maxEntries s
        \<and> r_drops (snd (put t sq d s)) = r_drops s + 1
        \<and> storedPayloads (snd (put t sq d s)) = tl (storedPayloads s) @ [d])
     \<and> (r_count s < r_maxEntries s \<longrightarrow>
          r_count (snd (put t sq d s)) = r_count s + 1
        \<and> r_drops (snd (put t sq d s)) = r_drops s
        \<and> storedPayloads (snd (put t sq d s)) = storedPayloads s @ [d])"
    by (intro allI impI, elim conjE, rule put_drop_oldest)
  show ?thesis by (rule conjI [OF g s2_scenario])
qed

lemma put_payloadSize: "r_payloadSize (snd (put t sq d s)) = r_payloadSize s"
  by (simp add: put_def Let_def)

theorem C2_drop_oldest_witness:
  "ringWf (runOps (take 4 s2ops) newStore)
   \<and> length [0, 13 :: u8] = unat (r_payloadSize (runOps (take 4 s2ops) newStore))
   \<and> r_count (runOps (take 4 s2ops) newStore) = r_maxEntries (runOps (take 4 s2ops) newStore)
   \<and> r_drops (snd (put 1003000 13 [0, 13] (runOps (take 4 s2ops) newStore)))
       = r_drops (runOps (take 4 s2ops) newStore) + 1
   \<and> storedPayloads (snd (put 1003000 13 [0, 13] (runOps (take 4 s2ops) newStore)))
       = tl (storedPayloads (runOps (take 4 s2ops) newStore)) @ [[0, 13]]"
proof -
  let ?ia = "init 3 2 2 1000 newStore"
  let ?ib = "snd (put 1000000 10 [0, 10] ?ia)"
  let ?ic = "snd (put 1001000 11 [0, 11] ?ib)"
  let ?s = "runOps (take 4 s2ops) newStore"
  have run: "?s = snd (put 1002000 12 [0, 12] ?ic)"
    by (simp add: runOps_def s2ops_def)
  have p0: "r_payloadSize ?ia = 2" by (simp add: init_def)
  have wf0: "ringWf ?ia" by (rule ringWf_init) simp_all
  have wf1: "ringWf ?ib" by (rule ringWf_put [OF wf0]) (simp add: p0)
  have wf2: "ringWf ?ic" by (rule ringWf_put [OF wf1]) (simp add: p0 put_payloadSize)
  have wf: "ringWf ?s" unfolding run by (rule ringWf_put [OF wf2]) (simp add: p0 put_payloadSize)
  have len: "length [0, 13 :: u8] = unat (r_payloadSize ?s)"
    unfolding run by (simp add: p0 put_payloadSize)
  have full: "r_count ?s = r_maxEntries ?s" by code_simp
  note g = C2_drop_oldest [THEN conjunct1, rule_format, OF conjI [OF wf len],
      where t = 1003000 and sq = 13]
  note gf = g [THEN conjunct2, THEN conjunct1, rule_format, OF full]
  show ?thesis
    by (intro conjI wf len full gf [THEN conjunct2, THEN conjunct1]
          gf [THEN conjunct2, THEN conjunct2])
qed


section \<open>OfflineDataStore: timestamp reconstruction\<close>

lemma tsRange_extractTs: "tsRange tb (extractTs tb d)"
proof -
  have "unat (ucast (b :: u8) :: u16) < 256" for b
  proof -
    have "unat (ucast b :: u16) = take_bit 16 (unat b)" by (simp add: unsigned_ucast_eq)
    also have "\<dots> \<le> unat b" by (rule take_bit_nat_less_eq_self)
    also have "unat b < 256" using unsigned_less [of b, where 'a = nat] by simp
    finally show ?thesis .
  qed
  then show ?thesis by (simp add: tsRange_def extractTs_def)
qed

lemma unat_resMs: "unat ((res :: u32) div 1000) \<le> 4294967"
proof -
  have "unat res < 4294967296" using unsigned_less [of res, where 'a = nat] by simp
  then have "unat res div 1000 \<le> 4294967" by linarith
  then show ?thesis by (simp add: unat_div)
qed

lemma unat_ucast_up_16_64: "unat (ucast (v :: u16) :: u64) = unat v"
proof -
  have "unat (ucast v :: u64) = take_bit 64 (unat v)" by (simp add: unsigned_ucast_eq)
  also have "\<dots> = unat v"
    by (rule take_bit_nat_eq_self) (use unsigned_less [of v, where 'a = nat] in simp)
  finally show ?thesis .
qed

lemma unat_ucast_up_32_64: "unat (ucast (v :: u32) :: u64) = unat v"
proof -
  have "unat (ucast v :: u64) = take_bit 64 (unat v)" by (simp add: unsigned_ucast_eq)
  also have "\<dots> = unat v"
    by (rule take_bit_nat_eq_self) (use unsigned_less [of v, where 'a = nat] in simp)
  finally show ?thesis .
qed

lemma unat_ucast_up_16_32: "unat (ucast (v :: u16) :: u32) = unat v"
proof -
  have "unat (ucast v :: u32) = take_bit 32 (unat v)" by (simp add: unsigned_ucast_eq)
  also have "\<dots> = unat v"
    by (rule take_bit_nat_eq_self) (use unsigned_less [of v, where 'a = nat] in simp)
  finally show ?thesis .
qed

lemma unat_u16_bound: "unat (v :: u16) \<le> 65535"
  using unsigned_less [of v, where 'a = nat] by simp

lemma unat_tsMs:
  "unat ((ucast (v :: u16) :: u64) * ucast ((res :: u32) div 1000))
     = unat v * unat (res div 1000)"
proof -
  have "unat v * unat (res div 1000) \<le> 65535 * 4294967"
    by (rule mult_le_mono [OF unat_u16_bound unat_resMs])
  then have "unat (ucast v :: u64) * unat (ucast (res div 1000) :: u64) < 2 ^ 64"
    by (simp add: unat_ucast_up_16_64 unat_ucast_up_32_64)
  then show ?thesis
    by (simp add: unat_mult_lem [THEN iffD1] unat_ucast_up_16_64 unat_ucast_up_32_64)
qed

lemma unat_wrapMs:
  assumes "k = 8 \<or> k = 16 \<or> k = 32"
  shows "unat (push_bit k (1 :: u64) * ucast ((res :: u32) div 1000)) = 2 ^ k * unat (res div 1000)"
proof -
  have p: "unat ((2 :: u64) ^ k) = 2 ^ k" using assms by auto
  have "(2::nat) ^ k \<le> 2 ^ 32" using assms by auto
  then have "(2::nat) ^ k * unat (res div 1000) \<le> 2 ^ 32 * 4294967"
    by (rule mult_le_mono [OF _ unat_resMs])
  then have "unat ((2 :: u64) ^ k) * unat (ucast (res div 1000) :: u64) < 2 ^ 64"
    by (simp add: p unat_ucast_up_32_64)
  then have "unat ((2 :: u64) ^ k * ucast (res div 1000)) = 2 ^ k * unat (res div 1000)"
    by (simp add: unat_mult_lem [THEN iffD1] p unat_ucast_up_32_64)
  then show ?thesis by (simp add: push_bit_of_1)
qed

lemma wrap_covers_last:
  assumes "tsRange tb lv" and "v < lv"
  shows "unat (push_bit (unat (tb * 8)) (1 :: u64) * ucast ((res :: u32) div 1000))
           \<le> 2 ^ 32 * 4294967"
    and "unat lv * unat (res div 1000)
           \<le> unat (push_bit (unat (tb * 8)) (1 :: u64) * ucast (res div 1000))"
proof -
  let ?R = "unat (res div 1000)"
  have ne: "lv \<noteq> 0" using assms(2) by (auto simp: word_less_nat_alt)
  then have tb: "tb = 1 \<or> tb = 2 \<or> tb = 4" using assms(1) by (auto simp: tsRange_def)
  then have k: "unat (tb * 8) = 8 \<or> unat (tb * 8) = 16 \<or> unat (tb * 8) = 32" by auto
  note w = unat_wrapMs [OF k, of res]
  have "(2::nat) ^ unat (tb * 8) \<le> 2 ^ 32" using k by auto
  then have "(2::nat) ^ unat (tb * 8) * ?R \<le> 2 ^ 32 * 4294967"
    by (rule mult_le_mono [OF _ unat_resMs])
  then show "unat (push_bit (unat (tb * 8)) (1 :: u64) * ucast (res div 1000)) \<le> 2 ^ 32 * 4294967"
    by (simp only: w)
  have "unat lv \<le> 2 ^ unat (tb * 8)"
  proof (cases "tb = 1")
    case True
    then have "unat lv < 256" using assms(1) by (simp add: tsRange_def)
    then show ?thesis using True by simp
  next
    case False
    then have "unat (tb * 8) = 16 \<or> unat (tb * 8) = 32" using tb by auto
    then show ?thesis using unat_u16_bound [of lv] by auto
  qed
  then have "unat lv * ?R \<le> 2 ^ unat (tb * 8) * ?R" by (rule mult_le_mono1)
  then show "unat lv * ?R \<le> unat (push_bit (unat (tb * 8)) (1 :: u64) * ucast (res div 1000))"
    by (simp only: w)
qed

lemma unat_add_no_overflow_64:
  "unat (a :: u64) + unat b < 2 ^ 64 \<Longrightarrow> unat (a + b) = unat a + unat b"
  by (simp add: unat_add_lem [THEN iffD1])

lemma unat_ucast_down_64_32:
  "unat (x :: u64) < 2 ^ 32 \<Longrightarrow> unat (ucast x :: u32) = unat x"
proof -
  assume a: "unat x < 2 ^ 32"
  have "unat (ucast x :: u32) = take_bit 32 (unat x)" by (simp add: unsigned_ucast_eq)
  also have "\<dots> = unat x" by (rule take_bit_nat_eq_self [OF a])
  finally show ?thesis .
qed

lemma put_ts_step:
  assumes cfg: "isConfigured s" and len: "length d = unat (r_payloadSize s)"
    and wrap: "r_timestampWrapMs s
         = push_bit (unat (r_timestampBytes s * 8)) (1 :: u64)
             * ucast (r_timestampResolutionUs s div 1000)"
    and lastok': "r_lastTimestampValid s \<longrightarrow>
           tsRange (r_timestampBytes s) (r_lastTimestampVal s)
         \<and> unat (r_timestampBaseMs s)
             + unat (r_lastTimestampVal s) * unat (r_timestampResolutionUs s div 1000) < 2 ^ 32"
    and fits: "lastAdjustedTsMs (snd (put t sq d s)) < 2 ^ 32"
  shows "unat (r_timestampBaseMs (snd (put t sq d s)))
           + unat (r_lastTimestampVal (snd (put t sq d s)))
             * unat (r_timestampResolutionUs s div 1000) < 2 ^ 32"
    and "\<exists>a. r_adjTimestampMs (snd (put t sq d s))
              = (r_adjTimestampMs s)[unat (r_headIdx s) := a]
            \<and> unat a = unat (r_timestampBaseMs (snd (put t sq d s)))
                 + unat (r_lastTimestampVal (snd (put t sq d s)))
                   * unat (r_timestampResolutionUs s div 1000)"
    and "r_lastTimestampValid s \<Longrightarrow>
           unat (r_timestampBaseMs s)
             + unat (r_lastTimestampVal s) * unat (r_timestampResolutionUs s div 1000)
           \<le> unat (r_timestampBaseMs (snd (put t sq d s)))
             + unat (r_lastTimestampVal (snd (put t sq d s)))
               * unat (r_timestampResolutionUs s div 1000)"
proof -
  let ?s' = "snd (put t sq d s)"
  note lastok = lastok' [rule_format]
  define R where "R = unat (r_timestampResolutionUs s div 1000)"
  define v where "v = extractTs (r_timestampBytes s) d"
  define tsMs where "tsMs = (ucast v :: u64) * ucast (r_timestampResolutionUs s div 1000)"
  define base0 where "base0 = (if \<not> r_lastTimestampValid s
      then (if r_timestampResolutionUs s div 1000 > 0 \<and> t div 1000 > tsMs
            then t div 1000 - tsMs else 0)
      else r_timestampBaseMs s)"
  define wrapped where "wrapped \<longleftrightarrow> r_lastTimestampValid s \<and> v < r_lastTimestampVal s"
  define base1 where "base1 = (if wrapped then base0 + r_timestampWrapMs s else base0)"
  have b': "r_timestampBaseMs ?s' = base1"
    using cfg len by (simp add: put_def Let_def base1_def wrapped_def base0_def tsMs_def v_def)
  have v': "r_lastTimestampVal ?s' = v"
    using cfg len by (simp add: put_def Let_def v_def)
  have res': "r_timestampResolutionUs ?s' = r_timestampResolutionUs s"
    using cfg len by (simp add: put_def Let_def)
  have adj': "r_adjTimestampMs ?s' = (r_adjTimestampMs s)[unat (r_headIdx s) := ucast (base1 + tsMs)]"
    using cfg len by (simp add: put_def Let_def base1_def wrapped_def base0_def tsMs_def v_def)
  have tsMs: "unat tsMs = unat v * R" unfolding tsMs_def R_def by (rule unat_tsMs)
  have tsb: "unat v * R \<le> 65535 * 4294967"
    unfolding R_def by (rule mult_le_mono [OF unat_u16_bound unat_resMs])
  \<comment> \<open>the base before the wrap correction\<close>
  have base0_cases:
    "(r_lastTimestampValid s \<and> base0 = r_timestampBaseMs s)
     \<or> (\<not> r_lastTimestampValid s \<and> unat base0 + unat tsMs \<le> unat (t div 1000) \<and> \<not> wrapped)
     \<or> (\<not> r_lastTimestampValid s \<and> base0 = 0 \<and> \<not> wrapped)"
  proof (cases "r_lastTimestampValid s")
    case True
    then show ?thesis by (simp add: base0_def)
  next
    case False
    show ?thesis
    proof (cases "r_timestampResolutionUs s div 1000 > 0 \<and> t div 1000 > tsMs")
      case True
      then have le: "tsMs \<le> t div 1000" by (simp add: less_imp_le)
      have "unat (t div 1000 - tsMs) = unat (t div 1000) - unat tsMs" by (rule unat_sub [OF le])
      moreover have "unat tsMs \<le> unat (t div 1000)" using le by (simp add: word_le_nat_alt)
      ultimately show ?thesis using False True by (simp add: base0_def wrapped_def)
    next
      case False
      then show ?thesis using \<open>\<not> r_lastTimestampValid s\<close> by (auto simp: base0_def wrapped_def)
    qed
  qed
  have t64: "unat (t div 1000) < 2 ^ 64" using unsigned_less [of "t div 1000", where 'a = nat] by simp
  \<comment> \<open>no 64-bit overflow in the base or the adjusted timestamp\<close>
  have base1_nat: "unat base1 + unat tsMs < 2 ^ 64
       \<and> (r_lastTimestampValid s \<longrightarrow>
             unat (r_timestampBaseMs s) + unat (r_lastTimestampVal s) * R \<le> unat base1 + unat v * R)"
  proof (cases wrapped)
    case False
    then have b1: "base1 = base0" by (simp add: base1_def)
    from base0_cases show ?thesis
    proof (elim disjE conjE)
      assume lv: "r_lastTimestampValid s" and b0: "base0 = r_timestampBaseMs s"
      have "unat (r_timestampBaseMs s) + unat (r_lastTimestampVal s) * R < 2 ^ 32"
        using lastok [OF lv] by (simp add: R_def)
      moreover have "unat (r_lastTimestampVal s) \<le> unat v"
        using False lv by (simp add: wrapped_def word_less_nat_alt)
      then have "unat (r_lastTimestampVal s) * R \<le> unat v * R" by (rule mult_le_mono1)
      ultimately show ?thesis using tsb by (simp add: b1 b0 tsMs)
    next
      assume "\<not> r_lastTimestampValid s" and "unat base0 + unat tsMs \<le> unat (t div 1000)"
      then show ?thesis using t64 by (simp add: b1)
    next
      assume "\<not> r_lastTimestampValid s" and "base0 = 0"
      then show ?thesis using tsb by (simp add: b1 tsMs)
    qed
  next
    case True
    then have lv: "r_lastTimestampValid s" and lt: "v < r_lastTimestampVal s"
      by (simp_all add: wrapped_def)
    have b0: "base0 = r_timestampBaseMs s" using lv by (simp add: base0_def)
    have rng: "tsRange (r_timestampBytes s) (r_lastTimestampVal s)"
      and A: "unat (r_timestampBaseMs s) + unat (r_lastTimestampVal s) * R < 2 ^ 32"
      using lastok [OF lv] by (simp_all add: R_def)
    note w = wrap_covers_last [OF rng lt, of "r_timestampResolutionUs s", folded wrap R_def]
    have "unat (r_timestampBaseMs s) + unat (r_timestampWrapMs s) < 2 ^ 64"
      using A w(1) by simp
    then have b1: "unat base1 = unat (r_timestampBaseMs s) + unat (r_timestampWrapMs s)"
      using True by (simp add: base1_def b0 unat_add_no_overflow_64)
    show ?thesis using A w tsb by (simp add: b1 tsMs)
  qed
  then have sum: "unat (base1 + tsMs) = unat base1 + unat v * R"
    by (simp add: unat_add_no_overflow_64 tsMs)
  have "lastAdjustedTsMs ?s' = base1 + tsMs"
    by (simp add: lastAdjustedTsMs_def b' v' res' tsMs_def)
  then have "unat (base1 + tsMs) < unat (2 ^ 32 :: u64)"
    using fits by (simp add: word_less_nat_alt)
  then have small: "unat (base1 + tsMs) < 2 ^ 32" by simp
  show "unat (r_timestampBaseMs ?s') + unat (r_lastTimestampVal ?s')
             * unat (r_timestampResolutionUs s div 1000) < 2 ^ 32"
    using small sum by (simp add: b' v' R_def)
  show "\<exists>a. r_adjTimestampMs ?s' = (r_adjTimestampMs s)[unat (r_headIdx s) := a]
            \<and> unat a = unat (r_timestampBaseMs ?s')
                 + unat (r_lastTimestampVal ?s') * unat (r_timestampResolutionUs s div 1000)"
  proof (intro exI conjI)
    show "r_adjTimestampMs ?s' = (r_adjTimestampMs s)[unat (r_headIdx s) := ucast (base1 + tsMs)]"
      by (rule adj')
    show "unat (ucast (base1 + tsMs) :: u32) = unat (r_timestampBaseMs ?s')
                 + unat (r_lastTimestampVal ?s') * unat (r_timestampResolutionUs s div 1000)"
      using unat_ucast_down_64_32 [OF small] sum by (simp add: b' v' R_def)
  qed
  show "r_lastTimestampValid s \<Longrightarrow>
           unat (r_timestampBaseMs s)
             + unat (r_lastTimestampVal s) * unat (r_timestampResolutionUs s div 1000)
           \<le> unat (r_timestampBaseMs ?s') + unat (r_lastTimestampVal ?s')
               * unat (r_timestampResolutionUs s div 1000)"
    using base1_nat by (simp add: b' v' R_def)
qed

lemma tsInv_put:
  assumes wf: "ringWf s" and inv: "tsInv s" and len: "length d = unat (r_payloadSize s)"
    and fits: "lastAdjustedTsMs (snd (put t sq d s)) < 2 ^ 32"
  shows "tsInv (snd (put t sq d s))"
proof -
  let ?s' = "snd (put t sq d s)"
  let ?R = "unat (r_timestampResolutionUs s div 1000)"
  let ?A = "\<lambda>x. unat (r_timestampBaseMs x) + unat (r_lastTimestampVal x) * ?R"
  let ?f = "\<lambda>e :: u8 list \<times> u32. unat (snd e)"
  let ?tsOf = "\<lambda>e :: u8 list \<times> u32. unat (extractTs (r_timestampBytes s) (fst e)) * ?R"
  note cfg = ringWf_configured [OF wf]
  note f = put_accepted [OF cfg len, where t = t and sq = sq]
  have wrap: "r_timestampWrapMs s
         = push_bit (unat (r_timestampBytes s * 8)) (1 :: u64)
             * ucast (r_timestampResolutionUs s div 1000)"
    and cnt: "r_count s \<noteq> 0 \<longrightarrow> r_lastTimestampValid s"
    and lastok: "r_lastTimestampValid s \<longrightarrow>
           tsRange (r_timestampBytes s) (r_lastTimestampVal s) \<and> ?A s < 2 ^ 32"
    and ents: "\<forall>e \<in> set (storedSlots s). ?tsOf e \<le> ?f e \<and> ?f e \<le> ?A s"
    and srt: "sorted (map ?f (storedSlots s))"
    using inv by (simp_all add: tsInv_def)
  note st = put_ts_step [OF cfg len wrap lastok fits]
  from st(2) obtain a where adj: "r_adjTimestampMs ?s' = (r_adjTimestampMs s)[unat (r_headIdx s) := a]"
    and a: "unat a = ?A ?s'" by blast
  have hl: "unat (r_headIdx s) < length (r_adjTimestampMs s)" using wf by (simp add: ringWf_def)
  have new: "r_adjTimestampMs ?s' ! unat (r_headIdx s) = a" using adj hl by simp
  let ?old = "(if unat (r_count s) < unat (r_maxEntries s) then storedSlots s else tl (storedSlots s))"
  have ss: "storedSlots ?s' = ?old @ [(d, a)]"
    using storedSlots_put [OF wf len, of t sq] new by simp
  have sub: "set ?old \<subseteq> set (storedSlots s)"
    by (cases "storedSlots s") auto
  have oldA: "?f e \<le> ?A ?s' \<and> ?tsOf e \<le> ?f e" if "e \<in> set ?old" for e
  proof -
    have e: "e \<in> set (storedSlots s)" using that sub by blast
    then have "storedSlots s \<noteq> []" by auto
    then have "unat (r_count s) \<noteq> 0" by (auto simp: storedSlots_def)
    then have lv: "r_lastTimestampValid s" using cnt by auto
    from st(3) [OF lv] ents e show ?thesis by fastforce
  qed
  have newts: "?tsOf (d, a) \<le> ?f (d, a)" by (simp add: a f(15))
  have srt_old: "sorted (map ?f ?old)"
    using srt by (cases "storedSlots s") auto
  have srt': "sorted (map ?f (storedSlots ?s'))"
    unfolding ss using srt_old oldA by (auto simp: sorted_append a)
  have ents': "\<forall>e \<in> set (storedSlots ?s'). ?tsOf e \<le> ?f e \<and> ?f e \<le> ?A ?s'"
    unfolding ss using oldA newts by (auto simp: a)
  show ?thesis
    unfolding tsInv_def f(4) f(5) f(6)
    using wrap f(14) st(1) tsRange_extractTs [of "r_timestampBytes s" d] ents' srt'
    by (simp add: f(15))
qed

lemma tsInv_init: "tsInv (init m p tb res s)"
  by (simp add: tsInv_def storedSlots_def init_def)

lemma tsInv_clear: "tsInv s \<Longrightarrow> tsInv (clear s)"
  by (simp add: tsInv_def storedSlots_def clear_def)

lemma ringWf_clear: "ringWf s \<Longrightarrow> ringWf (clear s)"
  by (simp add: ringWf_def clear_def)

lemma isConfigured_clear: "isConfigured (clear s) = isConfigured s"
  by (simp add: isConfigured_def clear_def)

lemma storedSlots_dec:
  assumes "ringWf s" and "n \<le> r_count s"
  shows "storedSlots (s\<lparr>r_count := r_count s - n\<rparr>) = drop (unat n) (storedSlots s)"
    and "ringWf (s\<lparr>r_count := r_count s - n\<rparr>)"
proof -
  let ?s' = "s\<lparr>r_count := r_count s - n\<rparr>"
  let ?H = "unat (r_headIdx s)" and ?M = "unat (r_maxEntries s)" and ?C = "unat (r_count s)"
  have c: "?C \<le> ?M" and m: "0 < ?M" using assms(1) by (simp_all add: ringWf_def)
  have n: "unat n \<le> ?C" using assms(2) by (simp add: word_le_nat_alt)
  have c': "unat (r_count s - n) = ?C - unat n" by (rule unat_sub [OF assms(2)])
  show "ringWf ?s'" using assms(1) c' by (auto simp: ringWf_def)
  have se: "slotEntry ?s' i = slotEntry s i" for i by (simp add: slotEntry_def)
  have ph: "physIdx ?s' k = physIdx s (k + unat n)" for k
  proof -
    have "?H + ?M - (?C - unat n) + k = ?H + ?M - ?C + (k + unat n)" using c n by linarith
    then show ?thesis by (simp add: physIdx_def c' add.assoc add.commute)
  qed
  show "storedSlots ?s' = drop (unat n) (storedSlots s)"
    unfolding storedSlots_def drop_map_upt by (simp add: c' se ph)
qed

lemma tsInv_dec:
  assumes "ringWf s" and "tsInv s" and "n \<le> r_count s"
  shows "tsInv (s\<lparr>r_count := r_count s - n\<rparr>)"
proof -
  let ?s' = "s\<lparr>r_count := r_count s - n\<rparr>"
  have ss: "storedSlots ?s' = drop (unat n) (storedSlots s)"
    by (rule storedSlots_dec(1) [OF assms(1,3)])
  have z: "r_count s - n \<noteq> 0 \<Longrightarrow> r_count s \<noteq> 0" using assms(3) by auto
  have sub: "set (drop (unat n) (storedSlots s)) \<subseteq> set (storedSlots s)"
    by (rule set_drop_subset)
  have srt: "sorted (map (\<lambda>e. unat (snd e)) (storedSlots s))
       \<Longrightarrow> sorted (map (\<lambda>e. unat (snd e)) (drop (unat n) (storedSlots s)))"
    by (simp add: drop_map [symmetric] sorted_wrt_drop)
  show ?thesis
    using assms(2) z sub srt unfolding tsInv_def ss by (auto simp: subset_iff)
qed

lemma slotMeta_adjusted:
  assumes "unat (extractTs (r_timestampBytes s) (fst e)) * unat (r_timestampResolutionUs s div 1000)
             \<le> unat (snd e)"
  shows "metaAdjustedMs s (slotMeta s e sq) = unat (snd e)"
proof -
  let ?v = "extractTs (r_timestampBytes s) (fst e)"
  let ?res = "r_timestampResolutionUs s div 1000"
  let ?R = "unat ?res"
  let ?comp = "(if ?res \<noteq> 0 then (ucast (ucast ?v :: u32) :: u64) * ucast ?res else 0)"
  have raw: "unat (ucast ?v :: u32) = unat ?v" by (rule unat_ucast_up_16_32)
  have "unat ?v * ?R \<le> 65535 * 4294967"
    by (rule mult_le_mono [OF unat_u16_bound unat_resMs])
  then have "unat (ucast (ucast ?v :: u32) :: u64) * unat (ucast ?res :: u64) < 2 ^ 64"
    by (simp add: unat_ucast_up_32_64 raw)
  then have "unat ((ucast (ucast ?v :: u32) :: u64) * ucast ?res) = unat ?v * ?R"
    by (simp add: unat_mult_lem [THEN iffD1] unat_ucast_up_32_64 raw)
  moreover have "?res = 0 \<Longrightarrow> ?R = 0" by simp
  ultimately have comp: "unat ?comp = unat ?v * ?R" by auto
  have adj: "unat (ucast (snd e) :: u64) = unat (snd e)" by (rule unat_ucast_up_32_64)
  have le: "?comp \<le> ucast (snd e)"
    using assms unfolding word_le_nat_alt comp adj .
  have base: "unat ((ucast (snd e) :: u64) - ?comp) = unat (snd e) - unat ?v * ?R"
    using unat_sub [OF le] by (simp only: comp adj)
  have "metaAdjustedMs s (slotMeta s e sq)
        = unat ((ucast (snd e) :: u64) - ?comp) + unat (ucast ?v :: u32) * ?R"
    using le unfolding metaAdjustedMs_def slotMeta_def Let_def by simp
  then show ?thesis using assms by (simp add: base raw)
qed

lemma put_not_accepted:
  "\<not> (isConfigured s \<and> length d = unat (r_payloadSize s)) \<Longrightarrow> snd (put t sq d s) = s"
  by (auto simp: put_def)

lemma put_isConfigured: "isConfigured (snd (put t sq d s)) = isConfigured s"
  by (simp add: put_def Let_def isConfigured_def)

lemma ts_applyOp:
  assumes G: "isConfigured s \<longrightarrow> ringWf s \<and> tsInv s" and ok: "tsRunOk [op] s"
  shows "isConfigured (applyOp op s) \<longrightarrow> ringWf (applyOp op s) \<and> tsInv (applyOp op s)"
proof (cases op)
  case (OpInit m p tb res)
  have fit: "unat m * (unat p + 4) < 2 ^ 32" using ok OpInit by simp
  have "ringWf (init m p tb res s)" if "isConfigured (init m p tb res s)"
  proof (rule ringWf_init [OF _ _ fit])
    show "0 < unat m" "0 < unat p"
      using that by (simp_all add: isConfigured_def init_def word_less_nat_alt)
  qed
  then show ?thesis using OpInit by (simp add: tsInv_init)
next
  case (OpPut t sq d)
  show ?thesis
  proof (cases "isConfigured s \<and> length d = unat (r_payloadSize s)")
    case True
    then have wf: "ringWf s" and inv: "tsInv s" and len: "length d = unat (r_payloadSize s)"
      using G by simp_all
    have acc: "fst (put t sq d s)" using True by (simp add: put_def Let_def)
    have fits: "lastAdjustedTsMs (snd (put t sq d s)) < 2 ^ 32" using ok OpPut acc by simp
    show ?thesis
      using ringWf_put [OF wf len, of t sq] tsInv_put [OF wf inv len fits] OpPut by simp
  next
    case False
    then show ?thesis using G OpPut by (simp add: put_not_accepted)
  qed
next
  case (OpGet rs mx c st mb)
  let ?N = "getNumResponses mx mb (getStartIdx c st) s"
  have st: "applyOp op s = (if c then s\<lparr>r_count := r_count s - ?N\<rparr> else s)"
    using OpGet by (simp add: get_store_eq)
  have cfg: "isConfigured (s\<lparr>r_count := r_count s - ?N\<rparr>) = isConfigured s"
    by (simp add: isConfigured_def)
  have le: "?N \<le> r_count s" by (rule getNum_le_count)
  show ?thesis
    unfolding st using G storedSlots_dec(2) [OF _ le] tsInv_dec [OF _ _ le] cfg by auto
next
  case (OpConsume n)
  let ?k = "(if n > r_count s then r_count s else n)"
  have le: "?k \<le> r_count s" by auto
  have cfg: "isConfigured (s\<lparr>r_count := r_count s - ?k\<rparr>) = isConfigured s"
    by (simp add: isConfigured_def)
  have st: "applyOp op s = (if isConfigured s then s\<lparr>r_count := r_count s - ?k\<rparr> else s)"
    using OpConsume by (simp add: consume_def)
  show ?thesis
    unfolding st using G storedSlots_dec(2) [OF _ le] tsInv_dec [OF _ _ le] cfg by auto
next
  case OpClear
  then show ?thesis using G by (simp add: ringWf_clear tsInv_clear isConfigured_clear)
qed

lemma tsRunOk_Cons: "tsRunOk (op # ops) s \<longleftrightarrow> tsRunOk [op] s \<and> tsRunOk ops (applyOp op s)"
  by (cases op) simp_all

lemma ts_runOps:
  assumes "isConfigured s \<longrightarrow> ringWf s \<and> tsInv s" and "tsRunOk ops s"
  shows "isConfigured (runOps ops s) \<longrightarrow> ringWf (runOps ops s) \<and> tsInv (runOps ops s)"
  using assms
proof (induction ops arbitrary: s)
  case Nil
  then show ?case by (simp add: runOps_def)
next
  case (Cons op ops)
  have ok1: "tsRunOk [op] s" and ok2: "tsRunOk ops (applyOp op s)"
    using Cons.prems(2) by (simp_all only: tsRunOk_Cons [of op ops s])
  have "runOps (op # ops) s = runOps ops (applyOp op s)" by (simp add: runOps_def)
  then show ?case using Cons.IH [OF ts_applyOp [OF Cons.prems(1) ok1] ok2] by simp
qed


section \<open>OfflineDataStore: ascending adjusted timestamps\<close>

lemma get_sorted:
  assumes G: "isConfigured s \<longrightarrow> ringWf s \<and> tsInv s"
  shows "sorted (map (metaAdjustedMs s) (g_metas (get rs mx c st mb s)))"
proof (cases "getNumResponses mx mb (getStartIdx c st) s = 0")
  case True
  then have "g_metas (get rs mx c st mb s) = []"
    by (subst get_alt) (simp add: getNothing_def)
  then show ?thesis by simp
next
  case False
  let ?S = "unat (getStartIdx c st)" and ?n = "unat (getNumResponses mx mb (getStartIdx c st) s)"
  let ?f = "\<lambda>e :: u8 list \<times> u32. unat (snd e)"
  have cfg: "isConfigured s" by (rule getNum_nonzero_conds(1) [OF False])
  then have wf: "ringWf s" and inv: "tsInv s" using G by simp_all
  note r = getNum_range [OF False]
  have ents: "\<forall>e \<in> set (storedSlots s).
        unat (extractTs (r_timestampBytes s) (fst e)) * unat (r_timestampResolutionUs s div 1000)
          \<le> unat (snd e)"
    and srt: "sorted (map ?f (storedSlots s))"
    using inv by (simp_all add: tsInv_def)
  have len: "?S + ?n \<le> length (storedSlots s)" using r(2) by (simp add: length_storedSlots)
  have adj: "metaAdjustedMs s (slotMeta s (storedSlots s ! (?S + j)) sq) = ?f (storedSlots s ! (?S + j))"
    if "j < ?n" for j sq
  proof (rule slotMeta_adjusted)
    have "storedSlots s ! (?S + j) \<in> set (storedSlots s)"
      by (rule nth_mem) (use that len in linarith)
    then show "unat (extractTs (r_timestampBytes s) (fst (storedSlots s ! (?S + j))))
          * unat (r_timestampResolutionUs s div 1000) \<le> unat (snd (storedSlots s ! (?S + j)))"
      using ents by blast
  qed
  have "map (metaAdjustedMs s) (g_metas (get rs mx c st mb s))
        = map (\<lambda>j. ?f (storedSlots s ! (?S + j))) [0..<?n]"
    unfolding get_slots(1) [OF wf False] using adj by simp
  also have "\<dots> = map ?f (take ?n (drop ?S (storedSlots s)))"
    unfolding take_drop_map_nth [OF len] by (simp add: comp_def)
  finally have eq: "map (metaAdjustedMs s) (g_metas (get rs mx c st mb s))
        = take ?n (drop ?S (map ?f (storedSlots s)))"
    by (simp add: take_map drop_map)
  show ?thesis unfolding eq by (intro sorted_wrt_take sorted_wrt_drop srt)
qed

lemma G_newStore: "isConfigured newStore \<longrightarrow> ringWf newStore \<and> tsInv newStore"
  by (simp add: isConfigured_def newStore_def)

lemma put_wrap_step:
  "(if fst (put t sq d s) \<and> r_lastTimestampValid s
        \<and> extractTs (r_timestampBytes s) d < r_lastTimestampVal s
    then r_timestampBaseMs (snd (put t sq d s)) = r_timestampBaseMs s + r_timestampWrapMs s
       \<and> r_tsWrapCount (snd (put t sq d s)) = r_tsWrapCount s + 1
    else r_lastTimestampValid s \<longrightarrow>
         r_timestampBaseMs (snd (put t sq d s)) = r_timestampBaseMs s
       \<and> r_tsWrapCount (snd (put t sq d s)) = r_tsWrapCount s)"
  by (simp add: put_def Let_def)

text \<open>
  Claim C1, amended.  For a \<^verbatim>\<open>put\<close> after the first (the last timestamp is valid): if the
  call is accepted and the timestamp \<open>tsVal\<close> read from the payload is below
  \<^verbatim>\<open>_lastTimestampVal\<close>, the base grows by \<^verbatim>\<open>_timestampWrapMs\<close> and the wrap count by one;
  otherwise both are unchanged.  And in every run from the default-constructed store in
  which each \<^verbatim>\<open>init\<close> asks for storage that fits 32 bits and the 64-bit adjusted timestamp
  of each accepted \<^verbatim>\<open>put\<close> is below \<open>2^32\<close> (the side array keeps 32 bits of it), the times
  \<open>tsBaseMs + ts \<times> resolution\<close> of the records any \<^verbatim>\<open>get\<close> returns ascend, across raw
  wraps too.
\<close>

theorem C1_wrap_step_and_monotone_adjusted:
  "(\<forall>s t sq d.
      (if fst (put t sq d s) \<and> r_lastTimestampValid s
            \<and> extractTs (r_timestampBytes s) d < r_lastTimestampVal s
       then r_timestampBaseMs (snd (put t sq d s)) = r_timestampBaseMs s + r_timestampWrapMs s
          \<and> r_tsWrapCount (snd (put t sq d s)) = r_tsWrapCount s + 1
       else r_lastTimestampValid s \<longrightarrow>
            r_timestampBaseMs (snd (put t sq d s)) = r_timestampBaseMs s
          \<and> r_tsWrapCount (snd (put t sq d s)) = r_tsWrapCount s))
   \<and> (\<forall>ops rs mx c st mb. tsRunOk ops newStore \<longrightarrow>
        sorted (map (metaAdjustedMs (runOps ops newStore))
                 (g_metas (get rs mx c st mb (runOps ops newStore)))))"
proof (intro conjI allI impI)
  fix s t sq d
  show "(if fst (put t sq d s) \<and> r_lastTimestampValid s
            \<and> extractTs (r_timestampBytes s) d < r_lastTimestampVal s
       then r_timestampBaseMs (snd (put t sq d s)) = r_timestampBaseMs s + r_timestampWrapMs s
          \<and> r_tsWrapCount (snd (put t sq d s)) = r_tsWrapCount s + 1
       else r_lastTimestampValid s \<longrightarrow>
            r_timestampBaseMs (snd (put t sq d s)) = r_timestampBaseMs s
          \<and> r_tsWrapCount (snd (put t sq d s)) = r_tsWrapCount s)"
    by (rule put_wrap_step)
next
  fix ops rs mx c st mb
  assume ok: "tsRunOk ops newStore"
  show "sorted (map (metaAdjustedMs (runOps ops newStore))
                 (g_metas (get rs mx c st mb (runOps ops newStore))))"
    by (rule get_sorted [OF ts_runOps [OF G_newStore ok]])
qed

lemma s1_admissible: "tsRunOk s1ops newStore"
  by (simp add: s1ops_def init_def put_def isConfigured_def newStore_def Let_def
        lastAdjustedTsMs_def extractTs_def getBEUInt16_def memWrite_def)

theorem C1_wrap_step_and_monotone_adjusted_witness:
  "tsRunOk s1ops newStore
   \<and> r_tsWrapCount (runOps s1ops newStore) = 1
   \<and> g_metas (get 0 0 True 0 0 (runOps s1ops newStore))
       = [\<lparr>seq = 0, ts = 60000, tsBaseMs = 0\<rparr>, \<lparr>seq = 1, ts = 65535, tsBaseMs = 0\<rparr>,
          \<lparr>seq = 2, ts = 0, tsBaseMs = 65536\<rparr>, \<lparr>seq = 3, ts = 500, tsBaseMs = 65536\<rparr>]
   \<and> sorted (map (metaAdjustedMs (runOps s1ops newStore))
         (g_metas (get 0 0 True 0 0 (runOps s1ops newStore))))"
proof -
  have w: "r_tsWrapCount (runOps s1ops newStore) = 1" by code_simp
  have m: "g_metas (get 0 0 True 0 0 (runOps s1ops newStore))
       = [\<lparr>seq = 0, ts = 60000, tsBaseMs = 0\<rparr>, \<lparr>seq = 1, ts = 65535, tsBaseMs = 0\<rparr>,
          \<lparr>seq = 2, ts = 0, tsBaseMs = 65536\<rparr>, \<lparr>seq = 3, ts = 500, tsBaseMs = 65536\<rparr>]"
    by code_simp
  note g = C1_wrap_step_and_monotone_adjusted [THEN conjunct2, rule_format, OF s1_admissible,
      of 0 0 True 0 0]
  show ?thesis by (intro conjI s1_admissible w m g)
qed

text \<open>
  Claim C1 as stated (ascending for every sequence of puts) fails once the adjusted
  timestamp passes \<open>2^32\<close> ms: \<^verbatim>\<open>_adjTimestampMs[_headIdx] = (uint32_t)adjustedTsMs\<close> keeps
  the low 32 bits.  With two-byte timestamps 0 and 20 put at \<open>2^32 - 10\<close> ms and 20 ms
  later, \<^verbatim>\<open>get\<close> returns the times 4294967286 and 20.  With four-byte timestamps 60000
  and 65541 the 16-bit downcast sees a wrap, the base grows by \<open>2^32\<close>, and \<^verbatim>\<open>get\<close>
  returns 60000 and 5.
\<close>

theorem C1_truncated_adjusted_counterexample:
  "\<not> sorted (map (metaAdjustedMs (runOps truncOps newStore))
     (g_metas (get 0 0 True 0 0 (runOps truncOps newStore))))
   \<and> map (metaAdjustedMs (runOps truncOps newStore))
     (g_metas (get 0 0 True 0 0 (runOps truncOps newStore))) = [4294967286, 20]
   \<and> map (metaAdjustedMs (runOps wideOps newStore))
     (g_metas (get 0 0 True 0 0 (runOps wideOps newStore))) = [60000, 5]"
proof -
  have m1: "g_metas (get 0 0 True 0 0 (runOps truncOps newStore))
     = [\<lparr>seq = 0, ts = 0, tsBaseMs = 4294967286\<rparr>, \<lparr>seq = 1, ts = 20, tsBaseMs = 0\<rparr>]"
    by code_simp
  have r1: "r_timestampResolutionUs (runOps truncOps newStore) = 1000" by code_simp
  have m2: "g_metas (get 0 0 True 0 0 (runOps wideOps newStore))
     = [\<lparr>seq = 0, ts = 60000, tsBaseMs = 0\<rparr>, \<lparr>seq = 1, ts = 5, tsBaseMs = 0\<rparr>]"
    by code_simp
  have r2: "r_timestampResolutionUs (runOps wideOps newStore) = 1000" by code_simp
  show ?thesis by (simp add: m1 r1 m2 r2 metaAdjustedMs_def)
qed


section \<open>Storing poll results in a device status\<close>

text \<open>
  The two paths of \<^verbatim>\<open>storePollResults\<close> that a multi-part poll takes: a fragment
  (\<open>nextReqIdx \<noteq> 0\<close>) and the final result after fragments were accumulated.
\<close>

lemma storePoll_partial:
  assumes "nextReqIdx \<noteq> 0"
  shows "storePollResults aggPut nextReqIdx t pollResult pause ds =
     (True, ds\<lparr>deviceIdentPolling := (deviceIdentPolling ds)
          \<lparr>pollDataResult := pollDataResult (deviceIdentPolling ds) @ pollResult,
           partialPollPauseAfterSendMs := pause,
           partialPollNextReqIdx := nextReqIdx\<rparr>\<rparr>)"
  using assms by (simp add: storePollResults_def recordPartialPollResult_def)

lemma storePoll_full:
  assumes "pollDataResult (deviceIdentPolling ds) \<noteq> []"
  shows "storePollResults aggPut 0 t pollResult pause ds =
     (fst (aggPut t (pollDataResult (deviceIdentPolling ds) @ pollResult) (dataAggregator ds)),
      ds\<lparr>deviceIdentPolling := (deviceIdentPolling ds)\<lparr>pollDataResult := []\<rparr>,
         dataAggregator :=
           snd (aggPut t (pollDataResult (deviceIdentPolling ds) @ pollResult) (dataAggregator ds)),
         d_offlineSeq := d_offlineSeq ds + 1,
         offlineData :=
           (if isConfigured (offlineData ds) \<and> \<not> d_offlineBufferPaused ds
            then snd (put t (d_offlineSeq ds)
                       (pollDataResult (deviceIdentPolling ds) @ pollResult) (offlineData ds))
            else offlineData ds)\<rparr>)"
  using assms by (simp add: storePollResults_def getPartialPollResultsAndClear_def Let_def)


text \<open>
  Claim C6.  A call of \<^verbatim>\<open>storePollResults\<close> with \<open>nextReqIdx \<noteq> 0\<close> returns true and only
  records the fragment: it is appended to the partial-poll accumulator, and
  \<^verbatim>\<open>pauseAfterSendMs\<close> and \<^verbatim>\<open>nextReqIdx\<close> are stored in the polling state; the aggregator,
  the offline ring, \<^verbatim>\<open>_offlineSeq\<close> and every other member are unchanged (a device status
  holds no persistent store).  A call
  with \<open>nextReqIdx = 0\<close> after fragments were accumulated hands accumulator \<open>@\<close> result to
  the aggregator (whatever the pause flag), returns the aggregator's answer, clears the
  accumulator, increments \<^verbatim>\<open>_offlineSeq\<close>, and puts the concatenation with the former
  \<^verbatim>\<open>_offlineSeq\<close> as its sequence number into the offline ring exactly when that ring is
  configured and buffering is not paused; otherwise the ring is left as it was; no other
  member changes.  On a
  well-formed ring whose payload size is the length of the concatenation, and with
  buffering not paused, the ring then holds the concatenation as one new last entry and
  its next sequence number is the former \<^verbatim>\<open>_offlineSeq\<close> plus one.
\<close>

theorem C6_store_poll_results:
  "(\<forall>aggPut nextReqIdx t pollResult pause (ds :: 'agg DeviceStatus). nextReqIdx \<noteq> 0 \<longrightarrow>
       fst (storePollResults aggPut nextReqIdx t pollResult pause ds)
     \<and> pollDataResult (deviceIdentPolling (snd (storePollResults aggPut nextReqIdx t pollResult pause ds)))
         = pollDataResult (deviceIdentPolling ds) @ pollResult
     \<and> dataAggregator (snd (storePollResults aggPut nextReqIdx t pollResult pause ds))
         = dataAggregator ds
     \<and> offlineData (snd (storePollResults aggPut nextReqIdx t pollResult pause ds)) = offlineData ds
     \<and> d_offlineSeq (snd (storePollResults aggPut nextReqIdx t pollResult pause ds))
         = d_offlineSeq ds
     \<and> partialPollPauseAfterSendMs
           (deviceIdentPolling (snd (storePollResults aggPut nextReqIdx t pollResult pause ds)))
         = pause
     \<and> partialPollNextReqIdx
           (deviceIdentPolling (snd (storePollResults aggPut nextReqIdx t pollResult pause ds)))
         = nextReqIdx
     \<and> snd (storePollResults aggPut nextReqIdx t pollResult pause ds)
         = ds\<lparr>deviceIdentPolling := (deviceIdentPolling ds)
               \<lparr>pollDataResult := pollDataResult (deviceIdentPolling ds) @ pollResult,
                partialPollPauseAfterSendMs := pause,
                partialPollNextReqIdx := nextReqIdx\<rparr>\<rparr>)
   \<and> (\<forall>aggPut t pollResult pause (ds :: 'agg DeviceStatus).
       pollDataResult (deviceIdentPolling ds) \<noteq> [] \<longrightarrow>
       fst (storePollResults aggPut 0 t pollResult pause ds)
         = fst (aggPut t (pollDataResult (deviceIdentPolling ds) @ pollResult) (dataAggregator ds))
     \<and> pollDataResult (deviceIdentPolling (snd (storePollResults aggPut 0 t pollResult pause ds))) = []
     \<and> dataAggregator (snd (storePollResults aggPut 0 t pollResult pause ds))
         = snd (aggPut t (pollDataResult (deviceIdentPolling ds) @ pollResult) (dataAggregator ds))
     \<and> d_offlineSeq (snd (storePollResults aggPut 0 t pollResult pause ds)) = d_offlineSeq ds + 1
     \<and> offlineData (snd (storePollResults aggPut 0 t pollResult pause ds))
         = (if isConfigured (offlineData ds) \<and> \<not> d_offlineBufferPaused ds
            then snd (put t (d_offlineSeq ds)
                       (pollDataResult (deviceIdentPolling ds) @ pollResult) (offlineData ds))
            else offlineData ds)
     \<and> snd (storePollResults aggPut 0 t pollResult pause ds)
         = ds\<lparr>deviceIdentPolling := (deviceIdentPolling ds)\<lparr>pollDataResult := []\<rparr>,
              dataAggregator :=
                snd (aggPut t (pollDataResult (deviceIdentPolling ds) @ pollResult)
                       (dataAggregator ds)),
              d_offlineSeq := d_offlineSeq ds + 1,
              offlineData :=
                (if isConfigured (offlineData ds) \<and> \<not> d_offlineBufferPaused ds
                 then snd (put t (d_offlineSeq ds)
                            (pollDataResult (deviceIdentPolling ds) @ pollResult) (offlineData ds))
                 else offlineData ds)\<rparr>)
   \<and> (\<forall>aggPut t pollResult pause (ds :: 'agg DeviceStatus).
       pollDataResult (deviceIdentPolling ds) \<noteq> [] \<and> ringWf (offlineData ds)
       \<and> \<not> d_offlineBufferPaused ds
       \<and> length (pollDataResult (deviceIdentPolling ds) @ pollResult)
           = unat (r_payloadSize (offlineData ds)) \<longrightarrow>
       storedPayloads (offlineData (snd (storePollResults aggPut 0 t pollResult pause ds)))
         = (if unat (r_count (offlineData ds)) < unat (r_maxEntries (offlineData ds))
            then storedPayloads (offlineData ds) else tl (storedPayloads (offlineData ds)))
           @ [pollDataResult (deviceIdentPolling ds) @ pollResult]
     \<and> r_nextSeq (offlineData (snd (storePollResults aggPut 0 t pollResult pause ds)))
         = d_offlineSeq ds + 1)"
proof (intro conjI allI impI)
  fix aggPut :: "u64 \<Rightarrow> u8 list \<Rightarrow> 'agg \<Rightarrow> bool \<times> 'agg"
  fix t pollResult pause and ds :: "'agg DeviceStatus"
  assume a: "pollDataResult (deviceIdentPolling ds) \<noteq> [] \<and> ringWf (offlineData ds)
       \<and> \<not> d_offlineBufferPaused ds
       \<and> length (pollDataResult (deviceIdentPolling ds) @ pollResult)
           = unat (r_payloadSize (offlineData ds))"
  let ?full = "pollDataResult (deviceIdentPolling ds) @ pollResult"
  have ne: "pollDataResult (deviceIdentPolling ds) \<noteq> []" and wf: "ringWf (offlineData ds)"
    and np: "\<not> d_offlineBufferPaused ds"
    and len: "length ?full = unat (r_payloadSize (offlineData ds))"
    using a by blast+
  note cfg = ringWf_configured [OF wf]
  have od: "offlineData (snd (storePollResults aggPut 0 t pollResult pause ds))
        = snd (put t (d_offlineSeq ds) ?full (offlineData ds))"
    using cfg np by (simp add: storePoll_full [OF ne])
  have sp: "storedPayloads (snd (put t (d_offlineSeq ds) ?full (offlineData ds)))
      = (if unat (r_count (offlineData ds)) < unat (r_maxEntries (offlineData ds))
            then storedPayloads (offlineData ds) else tl (storedPayloads (offlineData ds)))
           @ [?full]"
    unfolding storedPayloads_slots [OF ringWf_put [OF wf len]] storedPayloads_slots [OF wf]
      storedSlots_put [OF wf len]
    by (simp add: map_tl)
  show "storedPayloads (offlineData (snd (storePollResults aggPut 0 t pollResult pause ds)))
         = (if unat (r_count (offlineData ds)) < unat (r_maxEntries (offlineData ds))
            then storedPayloads (offlineData ds) else tl (storedPayloads (offlineData ds)))
           @ [?full]"
    unfolding od by (rule sp)
  show "r_nextSeq (offlineData (snd (storePollResults aggPut 0 t pollResult pause ds)))
         = d_offlineSeq ds + 1"
    unfolding od by (rule put_accepted(10) [OF cfg len])
qed (simp_all add: storePoll_partial storePoll_full)


text \<open>
  Scenario S6 with buffering active, through the theorem: after the fragment
  \<open>[0xAA, 0xBB]\<close> nothing was pushed; after the final \<open>[0xCC]\<close> the aggregator and the
  ring each hold the single entry \<open>[0xAA, 0xBB, 0xCC]\<close>, and \<^verbatim>\<open>_offlineSeq\<close> went from 0
  to 1.
\<close>

theorem C6_store_poll_results_witness:
  "(1 :: u32) \<noteq> 0
   \<and> pollDataResult (deviceIdentPolling
         (snd (storePollResults listAggPut 1 0 [0xAA, 0xBB] 5 (s6Start False)))) = [0xAA, 0xBB]
   \<and> dataAggregator (snd (storePollResults listAggPut 1 0 [0xAA, 0xBB] 5 (s6Start False))) = []
   \<and> storedPayloads (offlineData
         (snd (storePollResults listAggPut 1 0 [0xAA, 0xBB] 5 (s6Start False)))) = []
   \<and> d_offlineSeq (snd (storePollResults listAggPut 1 0 [0xAA, 0xBB] 5 (s6Start False))) = 0
   \<and> partialPollPauseAfterSendMs (deviceIdentPolling
         (snd (storePollResults listAggPut 1 0 [0xAA, 0xBB] 5 (s6Start False)))) = 5
   \<and> partialPollNextReqIdx (deviceIdentPolling
         (snd (storePollResults listAggPut 1 0 [0xAA, 0xBB] 5 (s6Start False)))) = 1
   \<and> dataAggregator (s6Run False) = [(5000, [0xAA, 0xBB, 0xCC])]
   \<and> pollDataResult (deviceIdentPolling (s6Run False)) = []
   \<and> storedPayloads (offlineData (s6Run False)) = [[0xAA, 0xBB, 0xCC]]
   \<and> r_nextSeq (offlineData (s6Run False)) = 1
   \<and> d_offlineSeq (s6Run False) = 1"
proof -
  let ?st = "s6Start False"
  let ?mid = "snd (storePollResults listAggPut 1 0 [0xAA, 0xBB] 5 ?st)"
  have one: "(1 :: u32) \<noteq> 0" by simp
  note p1 = C6_store_poll_results [THEN conjunct1, rule_format, OF one,
      where aggPut = listAggPut and t = 0 and pollResult = "[0xAA, 0xBB]" and pause = 5
        and ds = ?st]
  have st_acc: "pollDataResult (deviceIdentPolling ?st) = []"
    by (simp add: s6Start_def setOfflineBufferPaused_def configureOfflineBuffer_def
          newDeviceStatus_def newPollingInfo_def)
  have st_agg: "dataAggregator ?st = []"
    by (simp add: s6Start_def setOfflineBufferPaused_def configureOfflineBuffer_def
          newDeviceStatus_def)
  have st_od: "offlineData ?st = init 4 3 1 1000 newStore"
    by (simp add: s6Start_def setOfflineBufferPaused_def configureOfflineBuffer_def
          newDeviceStatus_def)
  have st_seq: "d_offlineSeq ?st = 0"
    by (simp add: s6Start_def setOfflineBufferPaused_def configureOfflineBuffer_def
          newDeviceStatus_def)
  have st_np: "\<not> d_offlineBufferPaused ?st"
    by (simp add: s6Start_def setOfflineBufferPaused_def)
  have mid_np: "\<not> d_offlineBufferPaused ?mid"
    using st_np by (simp add: storePollResults_def)
  have mid_acc: "pollDataResult (deviceIdentPolling ?mid) = [0xAA, 0xBB]"
    using p1 [THEN conjunct2, THEN conjunct1] by (simp add: st_acc)
  have mid_agg: "dataAggregator ?mid = []"
    using p1 [THEN conjunct2, THEN conjunct2, THEN conjunct1] by (simp add: st_agg)
  have mid_od: "offlineData ?mid = init 4 3 1 1000 newStore"
    using p1 [THEN conjunct2, THEN conjunct2, THEN conjunct2, THEN conjunct1]
    by (simp add: st_od)
  have mid_seq: "d_offlineSeq ?mid = 0"
    using p1 [THEN conjunct2, THEN conjunct2, THEN conjunct2, THEN conjunct2, THEN conjunct1]
    by (simp add: st_seq)
  have mid_pause: "partialPollPauseAfterSendMs (deviceIdentPolling ?mid) = 5"
    by (rule p1 [THEN conjunct2, THEN conjunct2, THEN conjunct2, THEN conjunct2,
          THEN conjunct2, THEN conjunct1])
  have mid_idx: "partialPollNextReqIdx (deviceIdentPolling ?mid) = 1"
    by (rule p1 [THEN conjunct2, THEN conjunct2, THEN conjunct2, THEN conjunct2,
          THEN conjunct2, THEN conjunct2, THEN conjunct1])
  have wf: "ringWf (offlineData ?mid)" unfolding mid_od by (rule ringWf_init) simp_all
  have sp0: "storedPayloads (init 4 3 1 1000 newStore) = []"
    by (simp add: storedPayloads_def init_def)
  have cnt0: "unat (r_count (offlineData ?mid)) < unat (r_maxEntries (offlineData ?mid))"
    unfolding mid_od by (simp add: init_def)
  have ne: "pollDataResult (deviceIdentPolling ?mid) \<noteq> []" by (simp add: mid_acc)
  have len: "length (pollDataResult (deviceIdentPolling ?mid) @ [0xCC])
      = unat (r_payloadSize (offlineData ?mid))"
    unfolding mid_od mid_acc by (simp add: init_def)
  have run: "s6Run False = snd (storePollResults listAggPut 0 5000 [0xCC] 0 ?mid)"
    by (simp add: s6Run_def)
  note p2 = C6_store_poll_results [THEN conjunct2, THEN conjunct1, rule_format, OF ne,
      where aggPut = listAggPut and t = 5000 and pollResult = "[0xCC]" and pause = 0]
  note p3 = C6_store_poll_results [THEN conjunct2, THEN conjunct2, rule_format,
      OF conjI [OF ne conjI [OF wf conjI [OF mid_np len]]],
      where aggPut = listAggPut and t = 5000 and pause = 0]
  have r_agg: "dataAggregator (s6Run False) = [(5000, [0xAA, 0xBB, 0xCC])]"
    unfolding run using p2 [THEN conjunct2, THEN conjunct2, THEN conjunct1]
    by (simp add: mid_acc mid_agg listAggPut_def)
  have r_acc: "pollDataResult (deviceIdentPolling (s6Run False)) = []"
    unfolding run by (rule p2 [THEN conjunct2, THEN conjunct1])
  have r_seq: "d_offlineSeq (s6Run False) = 1"
    unfolding run using p2 [THEN conjunct2, THEN conjunct2, THEN conjunct2, THEN conjunct1]
    by (simp add: mid_seq)
  have r_sp: "storedPayloads (offlineData (s6Run False)) = [[0xAA, 0xBB, 0xCC]]"
    unfolding run using p3 [THEN conjunct1] cnt0 by (simp add: mid_acc mid_od sp0)
  have r_ns: "r_nextSeq (offlineData (s6Run False)) = 1"
    unfolding run using p3 [THEN conjunct2] by (simp add: mid_seq)
  have m_sp: "storedPayloads (offlineData ?mid) = []" unfolding mid_od by (rule sp0)
  show ?thesis
    by (intro conjI one mid_acc mid_agg m_sp mid_seq mid_pause mid_idx r_agg r_acc r_sp r_ns
          r_seq)
qed

text \<open>
  Claim C6, the unconditional push to the ring: the same scenario with buffering paused.
  The aggregator receives the entry and \<^verbatim>\<open>_offlineSeq\<close> is incremented, but the configured
  offline ring receives nothing.
\<close>

theorem C6_paused_ring_not_written_counterexample:
  "d_offlineBufferPaused (s6Start True)
   \<and> isConfigured (offlineData (s6Start True))
   \<and> dataAggregator (s6Run True) = [(5000, [0xAA, 0xBB, 0xCC])]
   \<and> d_offlineSeq (s6Run True) = 1
   \<and> r_count (offlineData (s6Run True)) = 0
   \<and> r_nextSeq (offlineData (s6Run True)) = 0
   \<and> offlineData (s6Run True) = offlineData (s6Start True)"
  by (simp add: s6Run_def s6Start_def storePollResults_def recordPartialPollResult_def
        getPartialPollResultsAndClear_def setOfflineBufferPaused_def configureOfflineBuffer_def
        newDeviceStatus_def newPollingInfo_def listAggPut_def isConfigured_def init_def)

section \<open>The persisted ring: what importTo hands to its destination\<close>












section \<open>The persisted ring: what appendBatch does to the object\<close>

text \<open>
  The calls on the key-value store change neither the meta nor the flags of the object;
  a pass of the loop changes \<^verbatim>\<open>head\<close>, \<^verbatim>\<open>count\<close>, \<^verbatim>\<open>drops\<close> and \<^verbatim>\<open>nextSeq\<close> only.
\<close>

lemma openNVS_handle: "n_nvsHandle s \<noteq> 0 \<Longrightarrow> openNVS s = (True, s)"
  by (simp add: openNVS_def)

lemma openNVS_keeps:
  "n_meta (snd (openNVS s)) = n_meta s"
  "n_ready (snd (openNVS s)) = n_ready s"
  "n_metaValid (snd (openNVS s)) = n_metaValid s"
  "n_effectiveMaxEntries (snd (openNVS s)) = n_effectiveMaxEntries s"
  "n_flash (snd (openNVS s)) = n_flash s"
  by (simp_all add: openNVS_def)

lemma saveMeta_keeps:
  "n_meta (snd (saveMeta s)) = n_meta s"
  "n_ready (snd (saveMeta s)) = n_ready s"
  "n_metaValid (snd (saveMeta s)) = n_metaValid s"
  "n_effectiveMaxEntries (snd (saveMeta s)) = n_effectiveMaxEntries s"
  by (auto simp add: saveMeta_def nvs_set_meta_def openNVS_def split: prod.splits bool.splits if_splits)

lemma writeSegment_keeps:
  "n_meta (snd (writeSegment g d s)) = n_meta s"
  "n_ready (snd (writeSegment g d s)) = n_ready s"
  "n_metaValid (snd (writeSegment g d s)) = n_metaValid s"
  "n_effectiveMaxEntries (snd (writeSegment g d s)) = n_effectiveMaxEntries s"
  by (auto simp add: writeSegment_def nvs_set_blob_def openNVS_def split: prod.splits bool.splits if_splits)

lemma writeSegment_snd:
  assumes "writeSegment g d s = (ok, s1)"
  shows "n_meta s1 = n_meta s \<and> n_ready s1 = n_ready s \<and> n_metaValid s1 = n_metaValid s
     \<and> n_effectiveMaxEntries s1 = n_effectiveMaxEntries s"
  using writeSegment_keeps [of g d s] by (simp add: assms)

lemma flushSeg_keeps:
  "n_meta (a_store (snd (flushSeg st))) = n_meta (a_store st)"
  "n_ready (a_store (snd (flushSeg st))) = n_ready (a_store st)"
  "n_metaValid (a_store (snd (flushSeg st))) = n_metaValid (a_store st)"
  "n_effectiveMaxEntries (a_store (snd (flushSeg st))) = n_effectiveMaxEntries (a_store st)"
  "a_outLastSeq (snd (flushSeg st)) = a_outLastSeq st"
  "a_segBuf (snd (flushSeg st)) = a_segBuf st"
  "a_currentSegIdx (snd (flushSeg st)) = a_currentSegIdx st"
  by (auto simp add: flushSeg_def split: prod.splits dest: writeSegment_snd)


lemma flushSeg_snd:
  assumes "flushSeg st = (ok, st1)"
  shows "n_meta (a_store st1) = n_meta (a_store st) \<and> n_ready (a_store st1) = n_ready (a_store st)
     \<and> n_metaValid (a_store st1) = n_metaValid (a_store st)
     \<and> n_effectiveMaxEntries (a_store st1) = n_effectiveMaxEntries (a_store st)
     \<and> a_outLastSeq st1 = a_outLastSeq st \<and> a_segBuf st1 = a_segBuf st
     \<and> a_currentSegIdx st1 = a_currentSegIdx st"
  using flushSeg_keeps [of st] by (simp add: assms)


lemma appendStep_ok:
  assumes "appendStep P ps A fs eff ii st = (True, st1)"
  shows "n_meta (a_store st1) = (n_meta (a_store st))
           \<lparr>m_head := (m_head (n_meta (a_store st)) + 1) mod m_maxEntries (n_meta (a_store st)),
            m_count := (if m_count (n_meta (a_store st)) < eff
                        then m_count (n_meta (a_store st)) + 1 else m_count (n_meta (a_store st))),
            m_drops := (if m_count (n_meta (a_store st)) < eff
                        then m_drops (n_meta (a_store st)) else m_drops (n_meta (a_store st)) + 1),
            m_nextSeq := fs + ii + 1\<rparr>
     \<and> n_ready (a_store st1) = n_ready (a_store st)
     \<and> n_metaValid (a_store st1) = n_metaValid (a_store st)
     \<and> n_effectiveMaxEntries (a_store st1) = n_effectiveMaxEntries (a_store st)
     \<and> a_outLastSeq st1 = fs + ii"
  using assms
  by (auto simp add: appendStep_def Let_def split: prod.splits if_splits bool.splits
      dest!: flushSeg_snd)



lemma word_less_succ_nonzero: "(c::u32) < eff \<Longrightarrow> c + 1 \<noteq> 0"
proof
  assume a: "c < eff" and b: "c + 1 = 0"
  from b have "c = - 1" by (simp add: eq_neg_iff_add_eq_0)
  then have "eff \<le> c" by simp
  then show False using a by simp
qed

lemma count_step_nonzero:
  "eff \<noteq> 0 \<Longrightarrow> (if (c::u32) < eff then c + 1 else c) \<noteq> 0"
proof -
  assume e: "eff \<noteq> 0"
  show ?thesis
  proof (cases "c < eff")
    case True
    then have "c + 1 \<noteq> 0" by (rule word_less_succ_nonzero)
    then show ?thesis using True by simp
  next
    case False
    then have "eff \<le> c" by simp
    then have "c \<noteq> 0" using e by auto
    then show ?thesis using False by simp
  qed
qed

lemma appendLoop_success:
  "appendLoop P ps A fs eff k ii st = (True, st1) \<Longrightarrow> 0 < k \<Longrightarrow> eff \<noteq> 0 \<Longrightarrow>
     m_nextSeq (n_meta (a_store st1)) = fs + ii + of_nat k
   \<and> a_outLastSeq st1 = fs + ii + of_nat k - 1
   \<and> m_count (n_meta (a_store st1)) \<noteq> 0"
proof (induction k arbitrary: ii st)
  case 0
  then show ?case by simp
next
  case (Suc k)
  obtain b st' where step: "appendStep P ps A fs eff ii st = (b, st')"
    by (cases "appendStep P ps A fs eff ii st") auto
  have b: "b" using Suc.prems(1) step by (cases b) auto
  have rest: "appendLoop P ps A fs eff k (ii + 1) st' = (True, st1)"
    using Suc.prems(1) step b by simp
  note ok = appendStep_ok [of P ps A fs eff ii st st']
  show ?case
  proof (cases k)
    case 0
    then have "st1 = st'" using rest by simp
    then show ?thesis using ok step b 0 count_step_nonzero [OF Suc.prems(3)] by simp
  next
    case (Suc j)
    then have "0 < k" by simp
    from Suc.IH [OF rest this Suc.prems(3)] show ?thesis by (simp add: add.assoc)
  qed
qed


lemma word_of_nat_diff: "(k::u32) \<le> n \<Longrightarrow> of_nat (unat n - unat k) = n - k"
  by (simp add: unat_sub [symmetric])


lemma appendFrom_success:
  assumes "appendFrom P ps A fs n eff s1 = (True, l, s2)" and "n \<noteq> 0" and "eff \<noteq> 0"
    and ns: "\<not> (fs < m_nextSeq (n_meta s1) \<and> m_nextSeq (n_meta s1) - fs \<ge> n)"
  shows "m_nextSeq (n_meta s2) = fs + n \<and> l = fs + n - 1 \<and> m_count (n_meta s2) \<noteq> 0"
proof -
  define skip where "skip = (if fs < m_nextSeq (n_meta s1) then m_nextSeq (n_meta s1) - fs else 0)"
  define st0 where "st0 = \<lparr>a_store = s1,
      a_segBuf = replicate (unat (m_recordsPerSegment (n_meta s1) * m_recordSize (n_meta s1))) 0,
      a_currentSegIdx = UINT32_MAX, a_segDirty = False, a_outLastSeq = 0\<rparr>"
  obtain b st1 where lp: "appendLoop P ps A fs eff (unat n - unat skip) skip st0 = (b, st1)"
    by (cases "appendLoop P ps A fs eff (unat n - unat skip) skip st0") auto
  obtain b2 st2 where fl: "flushSeg st1 = (b2, st2)" by (cases "flushSeg st1") auto
  note k2 = flushSeg_snd [OF fl]
  have nsk: "(fs < m_nextSeq (n_meta s1) \<and> n \<le> m_nextSeq (n_meta s1) - fs) = False"
    using ns by simp
  have r: "appendFrom P ps A fs n eff s1 =
      (if \<not> b then (False, a_outLastSeq st1, a_store st1)
       else if \<not> b2 then (False, a_outLastSeq st2, a_store st2)
       else (fst (saveMeta (a_store st2)), a_outLastSeq st2, snd (saveMeta (a_store st2))))"
    unfolding appendFrom_def Let_def skip_def [symmetric] st0_def [symmetric]
    by (simp add: nsk lp fl split: prod.splits bool.splits)
  have b: "b" and b2: "b2" and l: "l = a_outLastSeq st2" and s2: "s2 = snd (saveMeta (a_store st2))"
    using assms(1) unfolding r by (auto split: if_splits)
  have sk: "skip < n" using ns assms(2) by (auto simp add: skip_def word_gt_0)
  then have kpos: "0 < unat n - unat skip" by (simp add: word_less_nat_alt)
  have sum: "skip + of_nat (unat n - unat skip) = n"
    using sk by (simp add: word_of_nat_diff)
  from appendLoop_success [OF lp [unfolded b [THEN eqTrueI]] kpos assms(3)]
  have "m_nextSeq (n_meta (a_store st1)) = fs + skip + of_nat (unat n - unat skip)"
    and "a_outLastSeq st1 = fs + skip + of_nat (unat n - unat skip) - 1"
    and "m_count (n_meta (a_store st1)) \<noteq> 0" by simp_all
  then have "m_nextSeq (n_meta (a_store st1)) = fs + n" and "a_outLastSeq st1 = fs + n - 1"
    and "m_count (n_meta (a_store st1)) \<noteq> 0"
    using sum by (simp_all add: add.assoc)
  then show ?thesis using k2 l s2 by (simp add: saveMeta_keeps)
qed


lemma saveMeta_ok:
  assumes "n_nvsHandle s \<noteq> 0" and "f_setOk (n_flash s)" and "f_commitOk (n_flash s)"
  shows "saveMeta s = (True, s\<lparr>n_flash := (n_flash s)\<lparr>f_metaBlob := Some (n_meta s)\<rparr>\<rparr>)"
  using assms by (simp add: saveMeta_def openNVS_def nvs_set_meta_def)

lemma clearNVS_ok:
  assumes "n_nvsHandle s \<noteq> 0" and "f_eraseOk (n_flash s)"
  shows "clearNVS s = s\<lparr>n_flash := (n_flash s)\<lparr>f_metaBlob := None, f_segs := Map.empty\<rparr>,
                        n_metaValid := False, n_ready := False\<rparr>"
  using assms by (simp add: clearNVS_def openNVS_def nvs_erase_all_def)

lemma alignSeq_count0:
  "m_count (n_meta s) = 0 \<Longrightarrow>
     alignSeq ps fs s = (True, s\<lparr>n_meta := (n_meta s)\<lparr>m_nextSeq := fs\<rparr>\<rparr>)"
  by (simp add: alignSeq_def)

lemma alignSeq_none:
  "m_count (n_meta s) \<noteq> 0 \<Longrightarrow> \<not> m_nextSeq (n_meta s) < fs \<Longrightarrow> alignSeq ps fs s = (True, s)"
  by (simp add: alignSeq_def)

lemma alignSeq_gap:
  assumes "m_count (n_meta s) \<noteq> 0" and "m_nextSeq (n_meta s) < fs"
    and "n_nvsHandle s \<noteq> 0" and "f_eraseOk (n_flash s)" and "f_setOk (n_flash s)"
    and "f_commitOk (n_flash s)"
    and "m_recordsPerSegment (n_meta (erasedStore ps s)) \<noteq> 0"
  shows "alignSeq ps fs s =
     (True, (erasedStore ps s)\<lparr>n_meta := (n_meta (erasedStore ps s))\<lparr>m_nextSeq := fs\<rparr>\<rparr>)"
proof -
  let ?c = "clearNVS s"
  let ?r = "(resetMeta ps (m_timestampBytes (n_meta ?c)) (m_timestampResolutionUs (n_meta ?c))
               (m_maxEntries (n_meta ?c)) ?c)\<lparr>n_metaValid := True, n_ready := True\<rparr>"
  have c: "?c = s\<lparr>n_flash := (n_flash s)\<lparr>f_metaBlob := None, f_segs := Map.empty\<rparr>,
                        n_metaValid := False, n_ready := False\<rparr>"
    by (rule clearNVS_ok [OF assms(3,4)])
  have rm: "n_meta ?r = n_meta (erasedStore ps s)"
    by (simp add: c resetMeta_def erasedStore_def Let_def)
  have rh: "n_nvsHandle ?r \<noteq> 0" "f_setOk (n_flash ?r)" "f_commitOk (n_flash ?r)"
    using assms(3,5,6) by (simp_all add: c resetMeta_def)
  have sv: "saveMeta ?r = (True, ?r\<lparr>n_flash := (n_flash ?r)\<lparr>f_metaBlob := Some (n_meta ?r)\<rparr>\<rparr>)"
    by (rule saveMeta_ok [OF rh])
  have e: "?r\<lparr>n_flash := (n_flash ?r)\<lparr>f_metaBlob := Some (n_meta ?r)\<rparr>\<rparr> = erasedStore ps s"
    by (simp add: c resetMeta_def erasedStore_def Let_def)
  have rps: "m_recordsPerSegment (n_meta ?r) \<noteq> 0" using assms(7) rm by simp
  have "alignSeq ps fs s =
      (case saveMeta ?r of
         (False, r1) \<Rightarrow> (False, r1)
       | (True, r1) \<Rightarrow> (True, r1\<lparr>n_meta := (n_meta r1)\<lparr>m_nextSeq := fs\<rparr>\<rparr>))"
    unfolding alignSeq_def Let_def using assms(1,2) rps by simp
  also have "\<dots> = (True, (?r\<lparr>n_flash := (n_flash ?r)\<lparr>f_metaBlob := Some (n_meta ?r)\<rparr>\<rparr>)
      \<lparr>n_meta := (n_meta (?r\<lparr>n_flash := (n_flash ?r)\<lparr>f_metaBlob := Some (n_meta ?r)\<rparr>\<rparr>))
         \<lparr>m_nextSeq := fs\<rparr>\<rparr>)"
    unfolding sv by simp
  also have "\<dots> = (True, (erasedStore ps s)\<lparr>n_meta := (n_meta (erasedStore ps s))\<lparr>m_nextSeq := fs\<rparr>\<rparr>)"
    by (simp only: e)
  finally show ?thesis .
qed

lemma alignSeq_nextSeq:
  assumes "alignSeq ps fs s = (True, s1)"
    and "m_count (n_meta s) = 0 \<or> m_nextSeq (n_meta s) < fs"
  shows "m_nextSeq (n_meta s1) = fs"
  using assms
  by (auto simp add: alignSeq_def Let_def saveMeta_keeps split: if_splits prod.splits bool.splits
      dest!: arg_cong [where f = snd])

lemma appendBatch_accepted:
  assumes "appendAccepted P ps A n s"
  shows "appendBatch P ps A fs n s =
     (case alignSeq ps fs s of
        (False, s1) \<Rightarrow> (False, 0, s1)
      | (True, s1) \<Rightarrow> appendFrom P ps A fs n (effectiveMax s) s1)"
proof -
  have a: "n_ready s" "n_metaValid s" "n \<noteq> 0" "\<not> length A < unat n"
    "\<not> length P < unat (n * ps)" "effectiveMax s \<noteq> 0"
    and p: "m_payloadSize (n_meta s) = ps"
    using assms by (auto simp add: appendAccepted_def not_less)
  show ?thesis by (simp add: appendBatch_def a p)
qed

lemma appendBatch_true_accepted:
  assumes "fst (appendBatch P ps A fs n s)"
  shows "appendAccepted P ps A n s"
  using assms by (auto simp add: appendBatch_def appendAccepted_def not_less split: if_splits)


lemma appendStep_cong:
  assumes "fs' + ii' = fs + ii" and "A' ! unat ii' = A ! unat ii"
    and "memRead P' (unat (ii' * ps)) (unat ps) = memRead P (unat (ii * ps)) (unat ps)"
  shows "appendStep P' ps A' fs' eff ii' st = appendStep P ps A fs eff ii st"
  unfolding appendStep_def by (simp only: assms)

lemma appendStep_shift:
  assumes d: "d \<le> ii" and ii: "ii < n" and la: "unat n \<le> length A"
    and nov: "unat n * unat ps < 2 ^ 32"
  shows "appendStep (drop (unat d * unat ps) P) ps (drop (unat d) A) (fs + d) eff (ii - d) st
         = appendStep P ps A fs eff ii st"
proof (rule appendStep_cong)
  show "fs + d + (ii - d) = fs + ii" by simp
  have ud: "unat (ii - d) = unat ii - unat d" by (rule unat_sub [OF d])
  have dle: "unat d \<le> unat ii" using d by (simp add: word_le_nat_alt)
  have ilt: "unat ii < unat n" using ii by (simp add: word_less_nat_alt)
  have "unat d \<le> length A" using dle ilt la by linarith
  then show "drop (unat d) A ! unat (ii - d) = A ! unat ii"
    using dle by (simp add: ud)
  have "unat ii * unat ps \<le> unat n * unat ps" using ilt by (simp add: mult_le_mono1)
  then have m1: "unat ii * unat ps < 2 ^ 32" using nov by linarith
  have "(unat ii - unat d) * unat ps \<le> unat ii * unat ps" by (simp add: mult_le_mono1)
  then have "(unat ii - unat d) * unat ps < 2 ^ 32" using m1 by linarith
  then have m2: "unat (ii - d) * unat ps < 2 ^ 32" by (simp only: ud)
  have u1: "unat (ii * ps) = unat ii * unat ps"
    using m1 by (simp add: unat_mult_lem [THEN iffD1])
  have u2: "unat ((ii - d) * ps) = (unat ii - unat d) * unat ps"
    using m2 by (simp add: unat_mult_lem [THEN iffD1] ud)
  have sum: "(unat ii - unat d) * unat ps + unat d * unat ps = unat ii * unat ps"
    using dle by (simp add: add_mult_distrib [symmetric])
  show "memRead (drop (unat d * unat ps) P) (unat ((ii - d) * ps)) (unat ps)
        = memRead P (unat (ii * ps)) (unat ps)"
    by (simp add: memRead_def u1 u2 sum)
qed

lemma appendLoop_shift:
  fixes n :: u32
  assumes "d \<le> ii" and "unat ii + k \<le> unat n" and "unat n \<le> length A"
    and "unat n * unat ps < 2 ^ 32"
  shows "appendLoop (drop (unat d * unat ps) P) ps (drop (unat d) A) (fs + d) eff k (ii - d) st
         = appendLoop P ps A fs eff k ii st"
  using assms(1,2)
proof (induction k arbitrary: ii st)
  case 0
  show ?case by simp
next
  case (Suc k)
  have ilt: "ii < n" using Suc.prems(2) by (simp add: word_less_nat_alt)
  have step: "appendStep (drop (unat d * unat ps) P) ps (drop (unat d) A) (fs + d) eff (ii - d) st
         = appendStep P ps A fs eff ii st"
    by (rule appendStep_shift [OF Suc.prems(1) ilt assms(3,4)])
  have nb: "unat n < 2 ^ 32" using unsigned_less [of n] by simp
  have us: "unat (ii + 1) = unat ii + 1"
    using Suc.prems(2) nb by (simp add: unat_add_lem [THEN iffD1])
  have d': "d \<le> ii + 1" using Suc.prems(1) us by (simp add: word_le_nat_alt)
  have b': "unat (ii + 1) + k \<le> unat n" using Suc.prems(2) us by simp
  have idx: "ii - d + 1 = ii + 1 - d" by simp
  show ?case
    by (simp only: appendLoop.simps step idx Suc.IH [OF d' b'])
qed


lemma appendFrom_aligned:
  assumes "\<not> fs < m_nextSeq (n_meta s1)"
  shows "appendFrom P ps A fs n eff s1 =
     (case appendLoop P ps A fs eff (unat n) 0
             \<lparr>a_store = s1,
              a_segBuf = replicate (unat (m_recordsPerSegment (n_meta s1) * m_recordSize (n_meta s1))) 0,
              a_currentSegIdx = UINT32_MAX, a_segDirty = False, a_outLastSeq = 0\<rparr> of
        (False, st1) \<Rightarrow> (False, a_outLastSeq st1, a_store st1)
      | (True, st1) \<Rightarrow>
          (case flushSeg st1 of
             (False, st2) \<Rightarrow> (False, a_outLastSeq st2, a_store st2)
           | (True, st2) \<Rightarrow>
               (case saveMeta (a_store st2) of (ok, s3) \<Rightarrow> (ok, a_outLastSeq st2, s3))))"
  using assms by (simp add: appendFrom_def)

lemma appendFrom_skip:
  assumes "fs < m_nextSeq (n_meta s1)" and "m_nextSeq (n_meta s1) - fs < n"
  shows "appendFrom P ps A fs n eff s1 =
     (case appendLoop P ps A fs eff (unat n - unat (m_nextSeq (n_meta s1) - fs))
             (m_nextSeq (n_meta s1) - fs)
             \<lparr>a_store = s1,
              a_segBuf = replicate (unat (m_recordsPerSegment (n_meta s1) * m_recordSize (n_meta s1))) 0,
              a_currentSegIdx = UINT32_MAX, a_segDirty = False, a_outLastSeq = 0\<rparr> of
        (False, st1) \<Rightarrow> (False, a_outLastSeq st1, a_store st1)
      | (True, st1) \<Rightarrow>
          (case flushSeg st1 of
             (False, st2) \<Rightarrow> (False, a_outLastSeq st2, a_store st2)
           | (True, st2) \<Rightarrow>
               (case saveMeta (a_store st2) of (ok, s3) \<Rightarrow> (ok, a_outLastSeq st2, s3))))"
  using assms by (simp add: appendFrom_def Let_def not_le [symmetric])

lemma appendFrom_all_stored:
  assumes "fs < m_nextSeq (n_meta s1)" and "n \<le> m_nextSeq (n_meta s1) - fs"
  shows "appendFrom P ps A fs n eff s1 = (True, m_nextSeq (n_meta s1) - 1, s1)"
proof -
  have "0 < m_nextSeq (n_meta s1)" using assms(1) by (simp add: word_gt_0) auto
  then show ?thesis using assms by (simp add: appendFrom_def)
qed

lemma appendBatch_skip:
  assumes acc: "appendAccepted P ps A n s" and c: "m_count (n_meta s) \<noteq> 0"
    and lt: "fs < m_nextSeq (n_meta s)" and dn: "m_nextSeq (n_meta s) - fs < n"
    and fit: "unat n * unat ps \<le> length P" and lp: "length P < 2 ^ 32"
  shows "appendBatch P ps A fs n s =
     appendBatch (drop (unat (m_nextSeq (n_meta s) - fs) * unat ps) P) ps
       (drop (unat (m_nextSeq (n_meta s) - fs)) A) (m_nextSeq (n_meta s))
       (n - (m_nextSeq (n_meta s) - fs)) s"
proof -
  let ?d = "m_nextSeq (n_meta s) - fs"
  let ?P = "drop (unat ?d * unat ps) P" and ?A = "drop (unat ?d) A"
  have nov: "unat n * unat ps < 2 ^ 32" using fit lp by linarith
  have la: "unat n \<le> length A" using acc by (simp add: appendAccepted_def)
  have dle: "?d \<le> n" using dn by simp
  have un: "unat (n - ?d) = unat n - unat ?d" by (rule unat_sub [OF dle])
  have dlt: "unat ?d < unat n" using dn by (simp add: word_less_nat_alt)
  have nz: "n - ?d \<noteq> 0" using dn by auto
  have "(unat n - unat ?d) * unat ps \<le> unat n * unat ps" by (simp add: mult_le_mono1)
  then have "(unat n - unat ?d) * unat ps < 2 ^ 32" using nov by linarith
  then have "unat (n - ?d) * unat ps < 2 ^ 32" by (simp only: un)
  then have um: "unat ((n - ?d) * ps) = (unat n - unat ?d) * unat ps"
    by (simp add: unat_mult_lem [THEN iffD1] un)
  have lP: "(unat n - unat ?d) * unat ps \<le> length P - unat ?d * unat ps"
    using fit dlt by (simp add: diff_mult_distrib)
  have lA: "unat (n - ?d) \<le> length ?A" using la by (simp add: un)
  have lP': "unat ((n - ?d) * ps) \<le> length ?P" using lP by (simp add: um)
  have acc': "appendAccepted ?P ps ?A (n - ?d) s"
    using acc nz lA lP' unfolding appendAccepted_def by blast
  have nl: "\<not> m_nextSeq (n_meta s) < fs" using lt by simp
  have al: "alignSeq ps fs s = (True, s)" by (rule alignSeq_none [OF c nl])
  have al': "alignSeq ps (m_nextSeq (n_meta s)) s = (True, s)"
    by (rule alignSeq_none [OF c]) simp
  have fsd: "fs + ?d = m_nextSeq (n_meta s)" by simp
  have sh: "appendLoop ?P ps ?A (fs + ?d) (effectiveMax s) (unat n - unat ?d) (?d - ?d) st
          = appendLoop P ps A fs (effectiveMax s) (unat n - unat ?d) ?d st" for st
    by (rule appendLoop_shift [where n = n]) (use dlt la nov in simp_all)
  have "appendBatch P ps A fs n s = appendFrom P ps A fs n (effectiveMax s) s"
    by (simp add: appendBatch_accepted [OF acc] al)
  also have "\<dots> = appendFrom ?P ps ?A (m_nextSeq (n_meta s)) (n - ?d) (effectiveMax s) s"
    unfolding appendFrom_skip [OF lt dn]
    by (subst appendFrom_aligned) (simp_all only: sh [unfolded fsd, symmetric] un, simp_all)
  also have "\<dots> = appendBatch ?P ps ?A (m_nextSeq (n_meta s)) (n - ?d) s"
    by (simp add: appendBatch_accepted [OF acc'] al')
  finally show ?thesis .
qed

section \<open>The persisted ring: the record with sequence number 0\<close>












section \<open>The persisted ring: aligning nextSeq in appendBatch\<close>

text \<open>
  The store that the sequence-gap branch leaves before it appends.
\<close>

lemma erasedStore_facts:
  "f_segs (n_flash (erasedStore ps s)) = Map.empty"
  "f_metaBlob (n_flash (erasedStore ps s)) = Some (n_meta (erasedStore ps s))"
  "n_meta (erasedStore ps s) = n_meta (resetMeta ps (m_timestampBytes (n_meta s))
      (m_timestampResolutionUs (n_meta s)) (m_maxEntries (n_meta s)) s)"
  "m_count (n_meta (erasedStore ps s)) = 0"
  "m_head (n_meta (erasedStore ps s)) = 0"
  "m_nextSeq (n_meta (erasedStore ps s)) = 0"
  "m_drops (n_meta (erasedStore ps s)) = 0"
  "n_ready (erasedStore ps s)" "n_metaValid (erasedStore ps s)"
  by (simp_all add: erasedStore_def resetMeta_def Let_def)

text \<open>
  Claim C5.  For a call of \<^verbatim>\<open>appendBatch\<close> that passes the checks at the head of the function
  (\<open>appendAccepted\<close>: the object ready with valid meta, \<^verbatim>\<open>payloadSize\<close> that of the meta,
  \<^verbatim>\<open>count\<close> not 0, the vectors long enough, the effective capacity not 0):
  \<^item> if \<^verbatim>\<open>_meta.count\<close> is 0, the call is the rest of the body (skip, loop, flush, save) run
    on the object with \<^verbatim>\<open>nextSeq\<close> set to \<^verbatim>\<open>firstSeq\<close>;
  \<^item> if \<^verbatim>\<open>_meta.count\<close> is not 0 and \<^verbatim>\<open>firstSeq > _meta.nextSeq\<close>, and the calls on the key-value
    store succeed (and a record fits a segment), the call is the rest of the body run on
    the erased store (no segment blobs, the re-initialised meta saved, \<^verbatim>\<open>count = 0\<close>) with
    \<^verbatim>\<open>nextSeq\<close> set to \<^verbatim>\<open>firstSeq\<close>;
  \<^item> if \<^verbatim>\<open>_meta.count\<close> is not 0, \<^verbatim>\<open>firstSeq < _meta.nextSeq\<close> and all \<^verbatim>\<open>count\<close> entries are
    already stored (\<^verbatim>\<open>count \<le> nextSeq - firstSeq\<close>), the call returns true with
    \<^verbatim>\<open>outLastSeq = nextSeq - 1\<close> and leaves the object and the key-value store as they were;
  \<^item> if \<^verbatim>\<open>_meta.count\<close> is not 0, \<^verbatim>\<open>firstSeq < _meta.nextSeq\<close> and \<^verbatim>\<open>nextSeq - firstSeq < count\<close>,
    the leading \<^verbatim>\<open>nextSeq - firstSeq\<close> entries are skipped: the call does what the call with
    the batch without these entries (first sequence number \<^verbatim>\<open>nextSeq\<close>) does, for a batch
    whose \<^verbatim>\<open>count * payloadSize\<close> bytes are in the payload vector without 32-bit overflow;
  \<^item> every successful call other than the all-stored one ends with
    \<^verbatim>\<open>nextSeq = firstSeq + count\<close>, \<^verbatim>\<open>outLastSeq = firstSeq + count - 1\<close> and \<^verbatim>\<open>count\<close> not 0.
\<close>

theorem C5_append_alignment:
  "(\<forall>P ps A fs n s. appendAccepted P ps A n s \<and> m_count (n_meta s) = 0 \<longrightarrow>
       appendBatch P ps A fs n s
         = appendFrom P ps A fs n (effectiveMax s) (s\<lparr>n_meta := (n_meta s)\<lparr>m_nextSeq := fs\<rparr>\<rparr>))
   \<and> (\<forall>P ps A fs n s.
         appendAccepted P ps A n s \<and> m_count (n_meta s) \<noteq> 0 \<and> m_nextSeq (n_meta s) < fs
         \<and> n_nvsHandle s \<noteq> 0 \<and> f_eraseOk (n_flash s) \<and> f_setOk (n_flash s)
         \<and> f_commitOk (n_flash s) \<and> m_recordsPerSegment (n_meta (erasedStore ps s)) \<noteq> 0 \<longrightarrow>
       appendBatch P ps A fs n s
         = appendFrom P ps A fs n (effectiveMax s)
             ((erasedStore ps s)\<lparr>n_meta := (n_meta (erasedStore ps s))\<lparr>m_nextSeq := fs\<rparr>\<rparr>)
       \<and> f_segs (n_flash (erasedStore ps s)) = Map.empty
       \<and> f_metaBlob (n_flash (erasedStore ps s)) = Some (n_meta (erasedStore ps s))
       \<and> n_meta (erasedStore ps s)
           = n_meta (resetMeta ps (m_timestampBytes (n_meta s))
               (m_timestampResolutionUs (n_meta s)) (m_maxEntries (n_meta s)) s)
       \<and> m_count (n_meta (erasedStore ps s)) = 0)
   \<and> (\<forall>P ps A fs n s.
         appendAccepted P ps A n s \<and> m_count (n_meta s) \<noteq> 0 \<and> fs < m_nextSeq (n_meta s)
         \<and> n \<le> m_nextSeq (n_meta s) - fs \<longrightarrow>
       appendBatch P ps A fs n s = (True, m_nextSeq (n_meta s) - 1, s))
   \<and> (\<forall>P ps A fs n s.
         appendAccepted P ps A n s \<and> m_count (n_meta s) \<noteq> 0 \<and> fs < m_nextSeq (n_meta s)
         \<and> m_nextSeq (n_meta s) - fs < n
         \<and> unat n * unat ps \<le> length P \<and> length P < 2 ^ 32 \<longrightarrow>
       appendBatch P ps A fs n s
         = appendBatch (drop (unat (m_nextSeq (n_meta s) - fs) * unat ps) P) ps
             (drop (unat (m_nextSeq (n_meta s) - fs)) A) (m_nextSeq (n_meta s))
             (n - (m_nextSeq (n_meta s) - fs)) s)
   \<and> (\<forall>P ps A fs n s l s'.
         appendBatch P ps A fs n s = (True, l, s')
         \<and> \<not> (m_count (n_meta s) \<noteq> 0 \<and> fs < m_nextSeq (n_meta s)
               \<and> n \<le> m_nextSeq (n_meta s) - fs) \<longrightarrow>
       m_nextSeq (n_meta s') = fs + n \<and> l = fs + n - 1 \<and> m_count (n_meta s') \<noteq> 0)"
proof -
  have a: "appendBatch P ps A fs n s
         = appendFrom P ps A fs n (effectiveMax s) (s\<lparr>n_meta := (n_meta s)\<lparr>m_nextSeq := fs\<rparr>\<rparr>)"
    if "appendAccepted P ps A n s \<and> m_count (n_meta s) = 0" for P ps A fs n s
    using that by (simp add: appendBatch_accepted alignSeq_count0)
  have b: "appendBatch P ps A fs n s
         = appendFrom P ps A fs n (effectiveMax s)
             ((erasedStore ps s)\<lparr>n_meta := (n_meta (erasedStore ps s))\<lparr>m_nextSeq := fs\<rparr>\<rparr>)"
    if h: "appendAccepted P ps A n s \<and> m_count (n_meta s) \<noteq> 0 \<and> m_nextSeq (n_meta s) < fs
         \<and> n_nvsHandle s \<noteq> 0 \<and> f_eraseOk (n_flash s) \<and> f_setOk (n_flash s)
         \<and> f_commitOk (n_flash s) \<and> m_recordsPerSegment (n_meta (erasedStore ps s)) \<noteq> 0"
    for P ps A fs n s
  proof -
    have al: "alignSeq ps fs s =
       (True, (erasedStore ps s)\<lparr>n_meta := (n_meta (erasedStore ps s))\<lparr>m_nextSeq := fs\<rparr>\<rparr>)"
      by (rule alignSeq_gap) (use h in blast)+
    have acc: "appendAccepted P ps A n s" using h by blast
    show ?thesis by (simp add: appendBatch_accepted [OF acc] al)
  qed
  have c: "appendBatch P ps A fs n s = (True, m_nextSeq (n_meta s) - 1, s)"
    if h: "appendAccepted P ps A n s \<and> m_count (n_meta s) \<noteq> 0 \<and> fs < m_nextSeq (n_meta s)
         \<and> n \<le> m_nextSeq (n_meta s) - fs" for P ps A fs n s
  proof -
    have acc: "appendAccepted P ps A n s" and c0: "m_count (n_meta s) \<noteq> 0"
      and lt: "fs < m_nextSeq (n_meta s)" and le: "n \<le> m_nextSeq (n_meta s) - fs"
      using h by blast+
    have nl: "\<not> m_nextSeq (n_meta s) < fs" using lt by simp
    show ?thesis
      by (simp add: appendBatch_accepted [OF acc] alignSeq_none [OF c0 nl]
            appendFrom_all_stored [OF lt le])
  qed
  have d: "appendBatch P ps A fs n s
         = appendBatch (drop (unat (m_nextSeq (n_meta s) - fs) * unat ps) P) ps
             (drop (unat (m_nextSeq (n_meta s) - fs)) A) (m_nextSeq (n_meta s))
             (n - (m_nextSeq (n_meta s) - fs)) s"
    if h: "appendAccepted P ps A n s \<and> m_count (n_meta s) \<noteq> 0 \<and> fs < m_nextSeq (n_meta s)
         \<and> m_nextSeq (n_meta s) - fs < n
         \<and> unat n * unat ps \<le> length P \<and> length P < 2 ^ 32" for P ps A fs n s
    by (rule appendBatch_skip) (use h in blast)+
  have e: "m_nextSeq (n_meta s') = fs + n \<and> l = fs + n - 1 \<and> m_count (n_meta s') \<noteq> 0"
    if h: "appendBatch P ps A fs n s = (True, l, s')
         \<and> \<not> (m_count (n_meta s) \<noteq> 0 \<and> fs < m_nextSeq (n_meta s)
               \<and> n \<le> m_nextSeq (n_meta s) - fs)" for P ps A fs n s l s'
  proof -
    have ok: "appendBatch P ps A fs n s = (True, l, s')" using h by blast
    have acc: "appendAccepted P ps A n s"
      by (rule appendBatch_true_accepted [where fs = fs]) (simp add: ok)
    have n0: "n \<noteq> 0" and e0: "effectiveMax s \<noteq> 0"
      using acc by (simp_all add: appendAccepted_def)
    obtain b s1 where al: "alignSeq ps fs s = (b, s1)" by (cases "alignSeq ps fs s") auto
    have b: "b" using ok by (cases b) (simp_all add: appendBatch_accepted [OF acc] al)
    have af: "appendFrom P ps A fs n (effectiveMax s) s1 = (True, l, s')"
      using ok b by (simp add: appendBatch_accepted [OF acc] al)
    have ns: "\<not> (fs < m_nextSeq (n_meta s1) \<and> n \<le> m_nextSeq (n_meta s1) - fs)"
    proof (cases "m_count (n_meta s) = 0 \<or> m_nextSeq (n_meta s) < fs")
      case True
      have "m_nextSeq (n_meta s1) = fs"
        by (rule alignSeq_nextSeq [OF al [unfolded b [THEN eqTrueI]] True])
      then show ?thesis by simp
    next
      case False
      then have "alignSeq ps fs s = (True, s)" by (simp add: alignSeq_none)
      then have "s1 = s" using al by simp
      then show ?thesis using h False by blast
    qed
    show ?thesis by (rule appendFrom_success [OF af n0 e0 ns])
  qed
  have B: "\<forall>P ps A fs n s.
         appendAccepted P ps A n s \<and> m_count (n_meta s) \<noteq> 0 \<and> m_nextSeq (n_meta s) < fs
         \<and> n_nvsHandle s \<noteq> 0 \<and> f_eraseOk (n_flash s) \<and> f_setOk (n_flash s)
         \<and> f_commitOk (n_flash s) \<and> m_recordsPerSegment (n_meta (erasedStore ps s)) \<noteq> 0 \<longrightarrow>
       appendBatch P ps A fs n s
         = appendFrom P ps A fs n (effectiveMax s)
             ((erasedStore ps s)\<lparr>n_meta := (n_meta (erasedStore ps s))\<lparr>m_nextSeq := fs\<rparr>\<rparr>)
       \<and> f_segs (n_flash (erasedStore ps s)) = Map.empty
       \<and> f_metaBlob (n_flash (erasedStore ps s)) = Some (n_meta (erasedStore ps s))
       \<and> n_meta (erasedStore ps s)
           = n_meta (resetMeta ps (m_timestampBytes (n_meta s))
               (m_timestampResolutionUs (n_meta s)) (m_maxEntries (n_meta s)) s)
       \<and> m_count (n_meta (erasedStore ps s)) = 0"
    by (intro allI impI conjI b erasedStore_facts) blast+
  show ?thesis
    apply (rule conjI)
     apply (intro allI impI)
     apply (erule a)
    apply (rule conjI)
     apply (rule B)
    apply (rule conjI)
     apply (intro allI impI)
     apply (erule c)
    apply (rule conjI)
     apply (intro allI impI)
     apply (erule d)
    apply (intro allI impI)
    apply (erule e)
    done
qed


text \<open>
  The four cases on concrete stores: a freshly configured store (\<^verbatim>\<open>count = 0\<close>) and the
  store after two records with the sequence numbers 0 and 1 (\<^verbatim>\<open>nextSeq = 2\<close>), to which a
  batch is offered with first sequence number 5 (gap), 0 (all stored) and 1 (one entry
  skipped).
\<close>

theorem C5_append_alignment_witness:
  "appendAccepted (batchPayloads 2) 2 (batchTs 2) 2 freshNVS
   \<and> m_count (n_meta freshNVS) = 0
   \<and> appendBatch (batchPayloads 2) 2 (batchTs 2) 7 2 freshNVS
       = appendFrom (batchPayloads 2) 2 (batchTs 2) 7 2 (effectiveMax freshNVS)
           (freshNVS\<lparr>n_meta := (n_meta freshNVS)\<lparr>m_nextSeq := 7\<rparr>\<rparr>)
   \<and> appendBatch (batchPayloads 2) 2 (batchTs 2) 0 2 freshNVS = (True, 1, appendedNVS 2)
   \<and> m_nextSeq (n_meta (appendedNVS 2)) = 2
   \<and> m_count (n_meta (appendedNVS 2)) = 2
   \<and> appendAccepted (batchPayloads 2) 2 (batchTs 2) 2 (appendedNVS 2)
   \<and> n_nvsHandle (appendedNVS 2) \<noteq> 0
   \<and> f_eraseOk (n_flash (appendedNVS 2)) \<and> f_setOk (n_flash (appendedNVS 2))
   \<and> f_commitOk (n_flash (appendedNVS 2))
   \<and> m_recordsPerSegment (n_meta (erasedStore 2 (appendedNVS 2))) = 666
   \<and> appendBatch (batchPayloads 2) 2 (batchTs 2) 5 2 (appendedNVS 2)
       = appendFrom (batchPayloads 2) 2 (batchTs 2) 5 2 (effectiveMax (appendedNVS 2))
           ((erasedStore 2 (appendedNVS 2))
              \<lparr>n_meta := (n_meta (erasedStore 2 (appendedNVS 2)))\<lparr>m_nextSeq := 5\<rparr>\<rparr>)
   \<and> f_segs (n_flash (erasedStore 2 (appendedNVS 2))) = Map.empty
   \<and> m_count (n_meta (erasedStore 2 (appendedNVS 2))) = 0
   \<and> appendBatch (batchPayloads 2) 2 (batchTs 2) 0 2 (appendedNVS 2) = (True, 1, appendedNVS 2)
   \<and> appendBatch (batchPayloads 2) 2 (batchTs 2) 1 2 (appendedNVS 2)
       = appendBatch (drop 2 (batchPayloads 2)) 2 (drop 1 (batchTs 2)) 2 1 (appendedNVS 2)"
proof -
  let ?P = "batchPayloads 2" and ?A = "batchTs 2" and ?s = "appendedNVS 2"
  have accF: "appendAccepted ?P 2 ?A 2 freshNVS" by code_simp
  have c0: "m_count (n_meta freshNVS) = 0" by code_simp
  note ta = C5_append_alignment [THEN conjunct1, rule_format, OF conjI [OF accF c0],
      where fs = 7]
  have r1: "fst (appendBatch ?P 2 ?A 0 2 freshNVS) = True" by code_simp
  have r2: "fst (snd (appendBatch ?P 2 ?A 0 2 freshNVS)) = 1" by code_simp
  have ok: "appendBatch ?P 2 ?A 0 2 freshNVS = (True, 1, ?s)"
    using r1 r2 by (simp add: appendedNVS_def prod_eq_iff)
  have nh: "\<not> (m_count (n_meta freshNVS) \<noteq> 0 \<and> 0 < m_nextSeq (n_meta freshNVS)
               \<and> 2 \<le> m_nextSeq (n_meta freshNVS) - 0)" by (simp add: c0)
  note te = C5_append_alignment [THEN conjunct2, THEN conjunct2, THEN conjunct2, THEN conjunct2,
      rule_format, OF conjI [OF ok nh]]
  have ns: "m_nextSeq (n_meta ?s) = 2" using te by simp
  have cnt: "m_count (n_meta ?s) = 2" by code_simp
  have c2: "m_count (n_meta ?s) \<noteq> 0" by (simp add: cnt)
  have acc: "appendAccepted ?P 2 ?A 2 ?s" by code_simp
  have h: "n_nvsHandle ?s \<noteq> 0" by code_simp
  have fe: "f_eraseOk (n_flash ?s)" by code_simp
  have fs: "f_setOk (n_flash ?s)" by code_simp
  have fc: "f_commitOk (n_flash ?s)" by code_simp
  have pb: "m_payloadSize (n_meta ?s) = 2" using acc by (simp add: appendAccepted_def)
  have rps: "m_recordsPerSegment (n_meta (erasedStore 2 ?s)) = 666"
    by (simp add: erasedStore_def resetMeta_def Let_def OFFLINE_NVS_SEGMENT_BYTES_def)
  have rps0: "m_recordsPerSegment (n_meta (erasedStore 2 ?s)) \<noteq> 0" by (simp add: rps)
  have gap: "m_nextSeq (n_meta ?s) < 5" by (simp add: ns)
  note tb = C5_append_alignment [THEN conjunct2, THEN conjunct1, rule_format,
      OF conjI [OF acc conjI [OF c2 conjI [OF gap conjI [OF h conjI [OF fe conjI [OF fs
         conjI [OF fc rps0]]]]]]]]
  have lt0: "0 < m_nextSeq (n_meta ?s)" by (simp add: ns)
  have all: "2 \<le> m_nextSeq (n_meta ?s) - 0" by (simp add: ns)
  note tc = C5_append_alignment [THEN conjunct2, THEN conjunct2, THEN conjunct1, rule_format,
      OF conjI [OF acc conjI [OF c2 conjI [OF lt0 all]]]]
  have lt1: "1 < m_nextSeq (n_meta ?s)" by (simp add: ns)
  have part: "m_nextSeq (n_meta ?s) - 1 < 2" by (simp add: ns)
  have lenP: "length ?P = 4" by (simp add: batchPayloads_def upt_rec)
  have fit: "unat (2 :: u32) * unat (2 :: u32) \<le> length ?P" by (simp add: lenP)
  have lp: "length ?P < 2 ^ 32" by (simp add: lenP)
  note td = C5_append_alignment [THEN conjunct2, THEN conjunct2, THEN conjunct2, THEN conjunct1,
      rule_format,
      OF conjI [OF acc conjI [OF c2 conjI [OF lt1 conjI [OF part conjI [OF fit lp]]]]]]
  have td': "appendBatch ?P 2 ?A 1 2 ?s = appendBatch (drop 2 ?P) 2 (drop 1 ?A) 2 1 ?s"
    using td by (simp add: ns)
  have tc': "appendBatch ?P 2 ?A 0 2 ?s = (True, 1, ?s)" using tc by (simp add: ns)
  show ?thesis
    by (intro conjI accF c0 ta ok ns cnt acc h fe fs fc rps tb [THEN conjunct1]
          tb [THEN conjunct2, THEN conjunct1]
          tb [THEN conjunct2, THEN conjunct2, THEN conjunct2, THEN conjunct2] tc' td')
qed

text \<open>
  Claim C5, for every call with \<^verbatim>\<open>count\<close> not 0: two calls for which it fails.  A batch of
  two three-byte records offered to a freshly configured store of two-byte records
  (\<^verbatim>\<open>_meta.count = 0\<close>) is refused by the check of \<^verbatim>\<open>payloadSize\<close>, and \<^verbatim>\<open>nextSeq\<close> stays 0
  instead of becoming \<^verbatim>\<open>firstSeq = 7\<close>.  A batch with a sequence gap (\<^verbatim>\<open>firstSeq = 5\<close> at
  \<^verbatim>\<open>nextSeq = 2\<close>) offered while \<^verbatim>\<open>nvs_commit\<close> fails is accepted by the checks, but the call
  returns false after the reset with \<^verbatim>\<open>nextSeq = 0\<close>, not 5.
\<close>

theorem C5_refused_and_failed_calls_counterexample:
  "(2 :: u32) \<noteq> 0
   \<and> m_count (n_meta freshNVS) = 0
   \<and> fst (appendBatch (batchPayloads 3) 3 (batchTs 2) 7 2 freshNVS) = False
   \<and> m_nextSeq (n_meta (snd (snd (appendBatch (batchPayloads 3) 3 (batchTs 2) 7 2 freshNVS)))) = 0
   \<and> appendAccepted (batchPayloads 2) 2 (batchTs 2) 2 commitFailNVS
   \<and> m_count (n_meta commitFailNVS) = 2
   \<and> m_nextSeq (n_meta commitFailNVS) = 2
   \<and> fst (appendBatch (batchPayloads 2) 2 (batchTs 2) 5 2 commitFailNVS) = False
   \<and> m_nextSeq (n_meta (snd (snd (appendBatch (batchPayloads 2) 2 (batchTs 2) 5 2 commitFailNVS))))
       = 0"
  by code_simp

end
